theory Spec2Isabelle
  imports Main "HOL-Library.Word"
begin

section \<open>Faults, sizes and memory\<close>

text \<open>
  The C program can leave its defined behaviour in two ways that matter here: a read or
  write outside a mapped object, and a failed \<open>assert\<close>. Both are values of the model:
  a function that can do either returns \<open>fault + 'a\<close>.
\<close>

datatype fault = OutOfBounds | AssertFailed

text \<open>\<open>enum GuessQuality\<close>, in the order of its declaration.\<close>

datatype GuessQuality = RightPlace | WrongPlace | Wrong | Unknown

text \<open>
  \<open>size_t\<close> is a 64-bit word: \<open>+\<close> and \<open>-\<close> wrap, \<open><\<close> is the unsigned order.
  \<open>SV_END_POS\<close> is \<open>SIZE_MAX\<close>.
\<close>

type_synonym size_t = "64 word"

definition SV_END_POS :: size_t where
  "SV_END_POS = - 1"

text \<open>
  Memory maps an address to the byte stored there, \<open>None\<close> where nothing is mapped.
  A \<open>const char *\<close> is an address; the null pointer is address 0.
\<close>

type_synonym memory = "nat \<Rightarrow> char option"

definition mem_of :: "nat \<Rightarrow> string \<Rightarrow> memory" where
  "mem_of base bs = (\<lambda>a. if base \<le> a \<and> a < base + length bs then Some (bs ! (a - base)) else None)"

section \<open>The string view library sv.h\<close>

text \<open>The struct \<open>sv\<close>: a length and a base pointer.\<close>

record sv =
  len :: size_t
  ptr :: nat

text \<open>
  \<open>views m s cs\<close>: in memory \<open>m\<close> the view \<open>s\<close> denotes exactly the bytes \<open>cs\<close>, all of
  them mapped. \<open>only_view m s\<close> is \<open>m\<close> with every byte outside \<open>s\<close> unmapped.
\<close>

definition views :: "memory \<Rightarrow> sv \<Rightarrow> string \<Rightarrow> bool" where
  "views m s cs \<longleftrightarrow>
     unat (len s) = length cs \<and> map (\<lambda>k. m (ptr s + k)) [0..<length cs] = map Some cs"

definition only_view :: "memory \<Rightarrow> sv \<Rightarrow> memory" where
  "only_view m s = (\<lambda>a. if ptr s \<le> a \<and> a < ptr s + unat (len s) then m a else None)"

text \<open>
  \<open>sv_substr\<close>: \<open>ret = {0}\<close> is the view of length 0 at the null pointer; \<open>beg + len\<close> is
  computed in \<open>size_t\<close>.
\<close>

definition sv_substr :: "size_t \<Rightarrow> size_t \<Rightarrow> sv \<Rightarrow> sv" where
  "sv_substr beg n inp =
     (if n = 0 \<or> beg > len inp then \<lparr>len = 0, ptr = 0\<rparr>
      else let n' = (if n = SV_END_POS \<or> beg + n > len inp then len inp - beg else n)
           in \<lparr>len = n', ptr = ptr inp + unat beg\<rparr>)"

lemma unat_inc: "(j::size_t) < k \<Longrightarrow> unat (j + 1) = Suc (unat j)"
  by unat_arith

text \<open>
  The inner loop of \<open>sv_chop_delim\<close>,
  \<open>for (j = i; j < in->len && in->ptr[j] == delim; j++)\<close>, returning the final \<open>j\<close>.
  The byte is read only when \<open>j < in->len\<close>.
\<close>

function skip_delims :: "memory \<Rightarrow> char \<Rightarrow> sv \<Rightarrow> size_t \<Rightarrow> fault + size_t" where
  "skip_delims m delim inp j =
     (if j < len inp then
        (case m (ptr inp + unat j) of
           None \<Rightarrow> Inl OutOfBounds
         | Some b \<Rightarrow> if b = delim then skip_delims m delim inp (j + 1) else Inr j)
      else Inr j)"
  by pat_completeness auto
termination
  by (relation "measure (\<lambda>(m, delim, inp, j). unat (len inp) - unat j)")
     (auto simp: unat_inc word_less_nat_alt)

declare skip_delims.simps [simp del]

text \<open>
  The outer loop, \<open>for (i = 0; i < in->len && !found; i++)\<close>. Once \<open>found\<close> is set the
  loop ends, so the result is \<open>Some (out->len, j)\<close> with \<open>j\<close> after \<open>j -= i\<close>, and \<open>None\<close>
  when the loop ends with \<open>found\<close> still false.
\<close>

function chop_scan :: "memory \<Rightarrow> char \<Rightarrow> sv \<Rightarrow> size_t \<Rightarrow> fault + (size_t \<times> size_t) option" where
  "chop_scan m delim inp i =
     (if i < len inp then
        (case m (ptr inp + unat i) of
           None \<Rightarrow> Inl OutOfBounds
         | Some b \<Rightarrow>
             if b = delim then
               (case skip_delims m delim inp i of
                  Inl e \<Rightarrow> Inl e
                | Inr j \<Rightarrow> Inr (Some (i, j - i)))
             else chop_scan m delim inp (i + 1))
      else Inr None)"
  by pat_completeness auto
termination
  by (relation "measure (\<lambda>(m, delim, inp, i). unat (len inp) - unat i)")
     (auto simp: unat_inc word_less_nat_alt)

declare chop_scan.simps [simp del]

text \<open>
  \<open>sv_chop_delim(delim, &in, &out)\<close> returns its boolean with the new \<open>*in\<close> and \<open>*out\<close>
  (two distinct objects, as at both call sites).
\<close>

definition sv_chop_delim :: "memory \<Rightarrow> char \<Rightarrow> sv \<Rightarrow> sv \<Rightarrow> fault + (bool \<times> sv \<times> sv)" where
  "sv_chop_delim m delim inp out =
     (if len inp = 0 then Inr (False, inp, out)
      else case chop_scan m delim inp 0 of
          Inl e \<Rightarrow> Inl e
        | Inr None \<Rightarrow> Inr (True, inp\<lparr>len := 0\<rparr>, \<lparr>len = len inp, ptr = ptr inp\<rparr>)
        | Inr (Some (out_len, j)) \<Rightarrow>
            Inr (True,
                 \<lparr>len = len inp - (out_len + j), ptr = ptr inp + unat (out_len + j)\<rparr>,
                 \<lparr>len = out_len, ptr = ptr inp\<rparr>))"

text \<open>
  \<open>sv_last_idx\<close>: \<open>for (size_t i = sv.len - 1; i < sv.len; i--)\<close>. Both \<open>sv.len - 1\<close> and
  \<open>i--\<close> wrap at 0.
\<close>

function last_idx_loop :: "memory \<Rightarrow> char \<Rightarrow> sv \<Rightarrow> size_t \<Rightarrow> fault + size_t" where
  "last_idx_loop m c s i =
     (if i < len s then
        (case m (ptr s + unat i) of
           None \<Rightarrow> Inl OutOfBounds
         | Some b \<Rightarrow> if b = c then Inr i else last_idx_loop m c s (i - 1))
      else Inr SV_END_POS)"
  by pat_completeness auto
termination
  apply (relation "measure (\<lambda>(m, c, s, i). if i < len s then Suc (unat i) else 0)")
   apply simp
  apply (auto simp: word_less_nat_alt)
  apply unat_arith
  done

declare last_idx_loop.simps [simp del]

definition sv_last_idx :: "memory \<Rightarrow> char \<Rightarrow> sv \<Rightarrow> fault + size_t" where
  "sv_last_idx m c s = last_idx_loop m c s (len s - 1)"

text \<open>
  A C string argument is the list of its bytes before the terminating NUL, so \<open>strlen\<close> is
  \<open>length\<close>. \<open>sv_cstr_eq\<close>: \<open>memcmp\<close> reads \<open>sv.len\<close> bytes at \<open>sv.ptr\<close>. The shortcut
  \<open>sv.ptr == cstr\<close> returns what \<open>memcmp\<close> would on equal pointers.
\<close>

definition sv_cstr_eq :: "memory \<Rightarrow> sv \<Rightarrow> string \<Rightarrow> fault + bool" where
  "sv_cstr_eq m s cstr =
     (let cstr_len = (of_nat (length cstr) :: size_t) in
      if len s \<noteq> cstr_len then Inr False
      else case those (map (\<lambda>k. m (ptr s + k)) [0..<unat (len s)]) of
             None \<Rightarrow> Inl OutOfBounds
           | Some bs \<Rightarrow> Inr (bs = take (unat (len s)) cstr))"

section \<open>The word lists of clidle.c\<close>

abbreviation NEWLINE :: char where
  "NEWLINE \<equiv> CHR 0x0A"

text \<open>\<open>count_lines\<close>: the number of newline bytes of the file, counted in \<open>size_t\<close>.\<close>

function count_loop :: "memory \<Rightarrow> sv \<Rightarrow> size_t \<Rightarrow> size_t \<Rightarrow> fault + size_t" where
  "count_loop m file i ret =
     (if i < len file then
        (case m (ptr file + unat i) of
           None \<Rightarrow> Inl OutOfBounds
         | Some b \<Rightarrow> count_loop m file (i + 1) (ret + (if b = NEWLINE then 1 else 0)))
      else Inr ret)"
  by pat_completeness auto
termination
  by (relation "measure (\<lambda>(m, file, i, ret). unat (len file) - unat i)")
     (auto simp: unat_inc word_less_nat_alt)

declare count_loop.simps [simp del]

definition count_lines :: "memory \<Rightarrow> sv \<Rightarrow> fault + size_t" where
  "count_lines m file = count_loop m file 0 0"

text \<open>
  The loop of \<open>init_words\<close> and \<open>choose_solution\<close>,
  \<open>while (sv_chop_delim('\n', &file, &buf)) words.array[i++] = buf;\<close>.
  \<open>arr\<close> is the part of the array written so far, so \<open>i\<close> is its length; \<open>cap\<close> is the
  number of elements that \<open>malloc\<close> reserved, and a store beyond it is a fault. Whether
  the loop ends is not assumed: the result is \<open>None\<close> if it does not.
\<close>

partial_function (option) words_loop ::
    "memory \<Rightarrow> nat \<Rightarrow> sv \<Rightarrow> sv \<Rightarrow> sv list \<Rightarrow> (fault + sv list) option" where
  "words_loop m cap file buf arr =
     (case sv_chop_delim m NEWLINE file buf of
        Inl e \<Rightarrow> Some (Inl e)
      | Inr (again, file', buf') \<Rightarrow>
          if again then
            (if length arr < cap then words_loop m cap file' buf' (arr @ [buf'])
             else Some (Inl OutOfBounds))
          else Some (Inr arr))"

declare words_loop.simps [code]

text \<open>
  \<open>init_words\<close> from the mapped file on: the array has room for \<open>count_lines(file)\<close> views.
  \<open>buf\<close> is the uninitialised local the loop passes to \<open>sv_chop_delim\<close>.
\<close>

definition init_words :: "memory \<Rightarrow> sv \<Rightarrow> sv \<Rightarrow> (fault + sv list) option" where
  "init_words m file buf =
     (case count_lines m file of
        Inl e \<Rightarrow> Some (Inl e)
      | Inr lines \<Rightarrow> words_loop m (unat lines) file buf [])"

text \<open>\<open>valid\<close>: the linear scan of \<open>words.array[0 .. words.len)\<close>.\<close>

fun valid :: "memory \<Rightarrow> sv list \<Rightarrow> string \<Rightarrow> fault + bool" where
  "valid m [] word = Inr False"
| "valid m (w # ws) word =
     (case sv_cstr_eq m w word of
        Inl e \<Rightarrow> Inl e
      | Inr eq \<Rightarrow> if eq then Inr True else valid m ws word)"

section \<open>Scoring a guess\<close>

abbreviation GUESSES :: int where
  "GUESSES \<equiv> 6"

abbreviation LETTERS :: nat where
  "LETTERS \<equiv> 5"

abbreviation ASCII_A :: int where
  "ASCII_A \<equiv> 0x61"

text \<open>
  \<open>guess[i]\<close> on a C string: its bytes, then the terminating NUL, then nothing that may
  be read.
\<close>

definition cstr_at :: "string \<Rightarrow> nat \<Rightarrow> fault + char" where
  "cstr_at s k =
     (if k < length s then Inr (s ! k)
      else if k = length s then Inr (CHR 0x00)
      else Inl OutOfBounds)"

text \<open>
  \<open>qualify_guess(guess, index)\<close> with the global \<open>solution\<close> as an argument. The loop
  counter stays below \<open>LETTERS\<close>, so it is a natural number. \<open>guess[i]\<close> is read only
  when \<open>solution.ptr[i] == c\<close>, as \<open>&&\<close> does.
\<close>

function qualify_loop :: "memory \<Rightarrow> sv \<Rightarrow> string \<Rightarrow> char \<Rightarrow> nat \<Rightarrow> fault + GuessQuality" where
  "qualify_loop m solution guess c k =
     (if k < LETTERS then
        (case m (ptr solution + k) of
           None \<Rightarrow> Inl OutOfBounds
         | Some s \<Rightarrow>
             if s = c then
               (case cstr_at guess k of
                  Inl e \<Rightarrow> Inl e
                | Inr g \<Rightarrow> if g \<noteq> c then Inr WrongPlace
                           else qualify_loop m solution guess c (Suc k))
             else qualify_loop m solution guess c (Suc k))
      else Inr Wrong)"
  by pat_completeness auto
termination
  by (relation "measure (\<lambda>(m, solution, guess, c, k). LETTERS - k)") auto

declare qualify_loop.simps [simp del]

definition qualify_guess :: "memory \<Rightarrow> sv \<Rightarrow> string \<Rightarrow> nat \<Rightarrow> fault + GuessQuality" where
  "qualify_guess m solution guess index =
     (case cstr_at guess index of
        Inl e \<Rightarrow> Inl e
      | Inr c \<Rightarrow>
          (case m (ptr solution + index) of
             None \<Rightarrow> Inl OutOfBounds
           | Some s \<Rightarrow> if s = c then Inr RightPlace else qualify_loop m solution guess c 0))"

text \<open>
  \<open>overrides(orig, new)\<close>: the \<open>assert(new != Unknown)\<close> aborts the program, which is
  the result \<open>Inl AssertFailed\<close>; otherwise the three tests run in the order of the source.
\<close>

definition overrides :: "GuessQuality \<Rightarrow> GuessQuality \<Rightarrow> fault + bool" where
  "overrides orig new =
     (if new = Unknown then Inl AssertFailed
      else if orig = RightPlace then Inr False
      else if orig = Unknown \<or> orig = Wrong then Inr True
      else if orig = WrongPlace \<and> new = RightPlace then Inr True
      else Inr False)"

text \<open>
  The global \<open>alphabet\<close> is a list of \<open>struct CharInfo\<close>; \<open>init_alphabet\<close> fills its 26
  entries.
\<close>

record CharInfo =
  chr :: char
  quality :: GuessQuality

definition init_alphabet :: "CharInfo list" where
  "init_alphabet = map (\<lambda>c. \<lparr>chr = char_of (c + 0x61), quality = Unknown\<rparr>) [0..<26]"

text \<open>
  \<open>(int)guess[i]\<close>: \<open>char\<close> is signed on the program's platform, so a byte from 0x80 on
  is negative. (Were it unsigned, the index below would be 31 or more for such a byte:
  outside the array either way.)
\<close>

definition char_to_int :: "char \<Rightarrow> int" where
  "char_to_int c = (if (of_char c :: int) < 128 then of_char c else of_char c - 256)"

text \<open>
  Lines 311 to 313 of clidle.c, the update of one alphabet entry:
  \<open>if (overrides(alphabet[(int)c - ASCII_A].quality, q)) alphabet[(int)c - ASCII_A].quality = q;\<close>
  An index outside the array is a fault; the entry is read before \<open>overrides\<close> is called.
\<close>

definition update_alphabet :: "CharInfo list \<Rightarrow> char \<Rightarrow> GuessQuality \<Rightarrow> fault + CharInfo list" where
  "update_alphabet alpha c q =
     (let k = char_to_int c - ASCII_A in
      if 0 \<le> k \<and> k < int (length alpha) then
        (case overrides (quality (alpha ! nat k)) q of
           Inl e \<Rightarrow> Inl e
         | Inr ov \<Rightarrow>
             if ov then Inr (alpha[nat k := (alpha ! nat k)\<lparr>quality := q\<rparr>])
             else Inr alpha)
      else Inl OutOfBounds)"

text \<open>
  The loop of \<open>color_word_and_update_alphabet\<close>. It returns the new alphabet and what
  \<open>print_qualified_char\<close> was called with, in order.
\<close>

function color_loop ::
    "memory \<Rightarrow> sv \<Rightarrow> string \<Rightarrow> nat \<Rightarrow> CharInfo list \<Rightarrow> (char \<times> GuessQuality) list
       \<Rightarrow> fault + (CharInfo list \<times> (char \<times> GuessQuality) list)" where
  "color_loop m solution guess k alpha shown =
     (if k < LETTERS then
        (case qualify_guess m solution guess k of
           Inl e \<Rightarrow> Inl e
         | Inr q \<Rightarrow>
             (case cstr_at guess k of
                Inl e \<Rightarrow> Inl e
              | Inr c \<Rightarrow>
                  (case update_alphabet alpha c q of
                     Inl e \<Rightarrow> Inl e
                   | Inr alpha' \<Rightarrow>
                       color_loop m solution guess (Suc k) alpha' (shown @ [(c, q)]))))
      else Inr (alpha, shown))"
  by pat_completeness auto
termination
  by (relation "measure (\<lambda>(m, solution, guess, k, alpha, shown). LETTERS - k)") auto

declare color_loop.simps [simp del]

definition color_word_and_update_alphabet ::
    "memory \<Rightarrow> sv \<Rightarrow> string \<Rightarrow> CharInfo list
       \<Rightarrow> fault + (CharInfo list \<times> (char \<times> GuessQuality) list)" where
  "color_word_and_update_alphabet m solution guess alpha = color_loop m solution guess 0 alpha []"

definition check_correct :: "memory \<Rightarrow> sv \<Rightarrow> string \<Rightarrow> fault + bool" where
  "check_correct m solution guess = sv_cstr_eq m solution guess"

section \<open>The game loop of main\<close>

text \<open>
  What the loop does that a player can see, in order. \<open>Prompt k a\<close>: the body is entered
  with the loop counter \<open>i\<close> equal to \<open>k\<close>, \<open>reprint_alphabet\<close> prints \<open>a\<close> and \<open>readline\<close>
  is called. \<open>Misinput msg\<close>: the call \<open>misinput(msg)\<close>. \<open>Colored cs\<close>: the letters
  printed by \<open>color_word_and_update_alphabet\<close>. \<open>Reveal s\<close>: the final \<open>printf\<close> of the
  view \<open>s\<close> after \<open>The word was:\<close>.
\<close>

datatype event =
    Prompt int "CharInfo list"
  | Misinput string
  | Colored "(char \<times> GuessQuality) list"
  | Reveal sv

text \<open>
  The three ways out of \<open>main\<close>: \<open>return 0\<close> when \<open>readline\<close> returns \<open>NULL\<close>,
  \<open>return 0\<close> after a correct guess, and the end of \<open>main\<close> after the loop.
\<close>

datatype exit_point = ExitEOF | ExitCorrect | ExitAfterLoop

text \<open>
  The state of the loop: the counter \<open>i\<close>, the globals \<open>alphabet\<close> and \<open>y\<close>, and the
  events so far.
\<close>

record game =
  loop_i :: int
  alphabet :: "CharInfo list"
  cursor_y :: int
  shown_events :: "event list"

definition emit :: "event \<Rightarrow> game \<Rightarrow> game" where
  "emit e g = g\<lparr>shown_events := shown_events g @ [e]\<rparr>"

text \<open>
  The \<open>for\<close> loop of \<open>main\<close>. The lines that \<open>readline\<close> returns are the list \<open>lines\<close>;
  after the last of them it returns \<open>NULL\<close>. \<open>i -= 1\<close> followed by the loop's \<open>i++\<close> is
  written as such. \<open>line[strcspn(line, "\n")] = '\0'\<close> cuts the line at its first
  newline. The counter and \<open>y\<close> stay between -1 and 9, far from the bounds of \<open>int\<close>.
\<close>

fun main_loop :: "memory \<Rightarrow> sv list \<Rightarrow> sv \<Rightarrow> game \<Rightarrow> string list \<Rightarrow> fault + (exit_point \<times> game)" where
  "main_loop m words solution g lines =
     (if loop_i g < GUESSES then
        (let g1 = emit (Prompt (loop_i g) (alphabet g)) g in
         case lines of
           [] \<Rightarrow> Inr (ExitEOF, g1)
         | raw # rest \<Rightarrow>
             if length raw = 0 then
               main_loop m words solution (g1\<lparr>loop_i := loop_i g1 - 1 + 1\<rparr>) rest
             else
               (let line = takeWhile (\<lambda>c. c \<noteq> NEWLINE) raw in
                if length line \<noteq> LETTERS then
                  main_loop m words solution
                    ((emit (Misinput ''Wrong length'') g1)\<lparr>loop_i := loop_i g1 - 1 + 1\<rparr>) rest
                else
                  (case valid m words line of
                     Inl e \<Rightarrow> Inl e
                   | Inr ok \<Rightarrow>
                       if \<not> ok then
                         main_loop m words solution
                           ((emit (Misinput ''Not in word list'') g1)\<lparr>loop_i := loop_i g1 - 1 + 1\<rparr>) rest
                       else
                         (case color_word_and_update_alphabet m solution line (alphabet g1) of
                            Inl e \<Rightarrow> Inl e
                          | Inr (alpha', shown) \<Rightarrow>
                              (let g2 = emit (Colored shown) (g1\<lparr>alphabet := alpha'\<rparr>) in
                               case check_correct m solution line of
                                 Inl e \<Rightarrow> Inl e
                               | Inr correct \<Rightarrow>
                                   if correct then Inr (ExitCorrect, g2)
                                   else main_loop m words solution
                                          (g2\<lparr>cursor_y := cursor_y g2 + 1, loop_i := loop_i g2 + 1\<rparr>)
                                          rest)))))
      else Inr (ExitAfterLoop, emit (Reveal solution) g))"

declare main_loop.simps [simp del]

text \<open>\<open>main\<close> after its initialisation: the counter starts at 0 and \<open>y\<close> at 3.\<close>

definition main_game :: "memory \<Rightarrow> sv list \<Rightarrow> sv \<Rightarrow> string list \<Rightarrow> fault + (exit_point \<times> game)" where
  "main_game m words solution lines =
     main_loop m words solution
       \<lparr>loop_i = 0, alphabet = init_alphabet, cursor_y = 3, shown_events = []\<rparr> lines"

section \<open>Notions of the specification\<close>

text \<open>
  The priority order of the specification, Unknown < Wrong < WrongPlace < RightPlace
  (the reverse of the numbering of the C enumeration).
\<close>

fun priority :: "GuessQuality \<Rightarrow> nat" where
  "priority Unknown = 0"
| "priority Wrong = 1"
| "priority WrongPlace = 2"
| "priority RightPlace = 3"

text \<open>The events of a run that are prompts, as their loop counters, and that are reveals.\<close>

fun prompts :: "event list \<Rightarrow> int list" where
  "prompts [] = []"
| "prompts (Prompt k a # es) = k # prompts es"
| "prompts (e # es) = prompts es"

fun reveals :: "event list \<Rightarrow> sv list" where
  "reveals [] = []"
| "reveals (Reveal s # es) = s # reveals es"
| "reveals (e # es) = reveals es"

text \<open>
  A sequence of updates of alphabet entries, one after the other, as the iterations of the
  loop of \<open>color_word_and_update_alphabet\<close> perform them, guess after guess.
\<close>

fun update_all :: "CharInfo list \<Rightarrow> (char \<times> GuessQuality) list \<Rightarrow> fault + CharInfo list" where
  "update_all alpha [] = Inr alpha"
| "update_all alpha ((c, q) # ups) =
     (case update_alphabet alpha c q of
        Inl e \<Rightarrow> Inl e
      | Inr alpha' \<Rightarrow> update_all alpha' ups)"

text \<open>
  \<open>never_lower alpha alpha'\<close>: the alphabet \<open>alpha'\<close> has the entries of \<open>alpha\<close>, each with
  the same letter and with a quality that is the same or strictly higher in priority.
\<close>

definition never_lower :: "CharInfo list \<Rightarrow> CharInfo list \<Rightarrow> bool" where
  "never_lower alpha alpha' \<longleftrightarrow>
     length alpha' = length alpha \<and>
     (\<forall>l<length alpha.
        chr (alpha' ! l) = chr (alpha ! l) \<and>
        (quality (alpha' ! l) = quality (alpha ! l) \<or>
         priority (quality (alpha ! l)) < priority (quality (alpha' ! l))))"

text \<open>
  \<open>last_at cs c n r\<close>: \<open>r\<close> is the answer to the search for the last \<open>c\<close> among
  \<open>cs[0..n]\<close>: the not-found value if there is none, else the largest such index.
\<close>

definition last_at :: "string \<Rightarrow> char \<Rightarrow> nat \<Rightarrow> size_t \<Rightarrow> bool" where
  "last_at cs c n r \<longleftrightarrow>
     (r = SV_END_POS \<and> (\<forall>k\<le>n. cs ! k \<noteq> c)) \<or>
     (unat r \<le> n \<and> cs ! unat r = c \<and> (\<forall>k. unat r < k \<and> k \<le> n \<longrightarrow> cs ! k \<noteq> c))"

text \<open>
  A small world for concrete runs: the file \<open>crane\<newline>trace\<newline>\<close> mapped at address 100, the
  two views of its lines, and \<open>crane\<close> as the solution.
\<close>

abbreviation (input) demo_mem :: memory where
  "demo_mem \<equiv> mem_of 100 (''crane'' @ [NEWLINE] @ ''trace'' @ [NEWLINE])"

abbreviation (input) demo_words :: "sv list" where
  "demo_words \<equiv> [\<lparr>len = 5, ptr = 100\<rparr>, \<lparr>len = 5, ptr = 106\<rparr>]"

abbreviation (input) demo_solution :: sv where
  "demo_solution \<equiv> \<lparr>len = 5, ptr = 100\<rparr>"

text \<open>The file of the specification's example, \<open>cat\<newline>dog\<newline>\<newline>bird\<close>.\<close>

abbreviation (input) demo_file :: string where
  "demo_file \<equiv> ''cat'' @ [NEWLINE] @ ''dog'' @ [NEWLINE, NEWLINE] @ ''bird''"

section \<open>Views\<close>

lemma views_iff:
  "views m s cs \<longleftrightarrow> unat (len s) = length cs \<and> (\<forall>k<length cs. m (ptr s + k) = Some (cs ! k))"
proof -
  have "map (\<lambda>k. m (ptr s + k)) [0..<length cs] = map Some cs \<longleftrightarrow>
        (\<forall>k<length cs. m (ptr s + k) = Some (cs ! k))" (is "?L \<longleftrightarrow> ?R")
  proof
    assume L: ?L
    show ?R
    proof (intro allI impI)
      fix k assume k: "k < length cs"
      from L have "map (\<lambda>k. m (ptr s + k)) [0..<length cs] ! k = map Some cs ! k" by simp
      with k show "m (ptr s + k) = Some (cs ! k)" by simp
    qed
  next
    assume ?R
    then show ?L by (intro nth_equalityI) simp_all
  qed
  then show ?thesis by (simp add: views_def)
qed

section \<open>sv_substr\<close>

text \<open>
  What \<open>sv_substr\<close> does as long as \<open>beg + len\<close> does not wrap: the view is empty, or it
  starts \<open>beg\<close> bytes into the input and ends within it.
\<close>

lemma sv_substr_empty: "n = 0 \<or> len inp < beg \<Longrightarrow> sv_substr beg n inp = \<lparr>len = 0, ptr = 0\<rparr>"
  by (auto simp: sv_substr_def)

lemma sv_substr_no_overflow:
  assumes "unat beg + unat n < 2 ^ 64" and "n \<noteq> 0" and "beg \<le> len inp"
  shows "ptr (sv_substr beg n inp) = ptr inp + unat beg \<and>
         unat beg + unat (len (sv_substr beg n inp)) \<le> unat (len inp) \<and>
         unat (len (sv_substr beg n inp)) = min (unat n) (unat (len inp) - unat beg)"
proof -
  have sum: "unat (beg + n) = unat beg + unat n"
    using assms(1) by (simp add: unat_add_lem [THEN iffD1])
  have le: "unat beg \<le> unat (len inp)" using assms(3) by (simp add: word_le_nat_alt)
  have sub: "unat (len inp - beg) = unat (len inp) - unat beg"
    using assms(3) by (simp add: unat_sub)
  have top: "unat (len inp) \<le> unat SV_END_POS"
    by (simp add: SV_END_POS_def word_le_nat_alt [symmetric])
  have nl: "\<not> len inp < beg" using assms(3) by (simp add: not_less)
  show ?thesis
  proof (cases "n = SV_END_POS \<or> len inp < beg + n")
    case True
    then have r: "sv_substr beg n inp = \<lparr>len = len inp - beg, ptr = ptr inp + unat beg\<rparr>"
      using assms(2) nl by (simp add: sv_substr_def)
    from True have "unat (len inp) - unat beg \<le> unat n"
    proof
      assume "n = SV_END_POS"
      with top show ?thesis by simp
    next
      assume "len inp < beg + n"
      then have "unat (len inp) < unat beg + unat n" by (simp add: word_less_nat_alt sum)
      then show ?thesis by simp
    qed
    with r sub le show ?thesis by (simp add: min_def)
  next
    case False
    then have r: "sv_substr beg n inp = \<lparr>len = n, ptr = ptr inp + unat beg\<rparr>"
      using assms(2) nl by (simp add: sv_substr_def)
    from False have "unat beg + unat n \<le> unat (len inp)"
      by (simp add: word_less_nat_alt sum not_less)
    with r show ?thesis by (simp add: min_def)
  qed
qed

text \<open>
  Claim C4. The claim asks that the view returned by \<open>sv_substr\<close> never reaches beyond
  the input view, and that a length with \<open>beg + len\<close> beyond the input's length is cut
  down. The code compares \<open>beg + len\<close> after it has wrapped: for an input of length 5,
  \<open>beg = 2\<close> and \<open>len = SIZE_MAX - 1\<close> the sum is 0, nothing is cut, and the result
  is a view of \<open>SIZE_MAX - 1\<close> bytes that starts 2 bytes into the 5.
\<close>

theorem sv_substr_overflow:
  "sv_substr 2 0xFFFFFFFFFFFFFFFE \<lparr>len = 5, ptr = 100\<rparr> =
     \<lparr>len = 0xFFFFFFFFFFFFFFFE, ptr = 102\<rparr> \<and>
   (2 :: size_t) + 0xFFFFFFFFFFFFFFFE = 0 \<and>
   unat (5 :: size_t) < unat (2 :: size_t) + unat (0xFFFFFFFFFFFFFFFE :: size_t)"
  by (simp add: sv_substr_def SV_END_POS_def Let_def)

section \<open>sv_last_idx\<close>

lemma last_idx_loop_out:
  "\<not> i < len s \<Longrightarrow> last_idx_loop m c s i = Inr SV_END_POS"
  by (subst last_idx_loop.simps) simp

lemma last_idx_loop_hit:
  "i < len s \<Longrightarrow> m (ptr s + unat i) = Some c \<Longrightarrow> last_idx_loop m c s i = Inr i"
  by (subst last_idx_loop.simps) simp

lemma last_idx_loop_miss:
  "i < len s \<Longrightarrow> m (ptr s + unat i) = Some b \<Longrightarrow> b \<noteq> c \<Longrightarrow>
     last_idx_loop m c s i = last_idx_loop m c s (i - 1)"
  by (subst last_idx_loop.simps) simp

lemma max_not_less: "\<not> (0 - 1 :: size_t) < k"
  by (simp add: not_less)

lemma last_idx_loop_spec:
  assumes v: "views m s cs"
  shows "unat i < length cs \<Longrightarrow> \<exists>r. last_idx_loop m c s i = Inr r \<and> last_at cs c (unat i) r"
proof (induction "unat i" arbitrary: i)
  case 0
  then have i0: "i = 0" by (simp add: unat_eq_0)
  from v 0(2) have lt: "i < len s"
    by (simp add: views_iff word_less_nat_alt)
  from v 0(2) have rd: "m (ptr s + unat i) = Some (cs ! unat i)"
    unfolding views_iff by blast
  show ?case
  proof (cases "cs ! unat i = c")
    case True
    with last_idx_loop_hit [of i s m c, OF lt] rd show ?thesis
      by (auto simp: last_at_def)
  next
    case False
    from last_idx_loop_miss [of i s m "cs ! unat i" c, OF lt rd False] i0
    have "last_idx_loop m c s i = Inr SV_END_POS"
      by (simp add: last_idx_loop_out max_not_less)
    with False i0 show ?thesis by (simp add: last_at_def)
  qed
next
  case (Suc n)
  from Suc.hyps(2) have nz: "i \<noteq> 0" by auto
  then have u: "unat (i - 1) = n" using Suc.hyps(2) by (simp add: unat_minus_one)
  from v Suc.prems have lt: "i < len s"
    by (simp add: views_iff word_less_nat_alt)
  from v Suc.prems have rd: "m (ptr s + unat i) = Some (cs ! unat i)"
    unfolding views_iff by blast
  show ?case
  proof (cases "cs ! unat i = c")
    case True
    with last_idx_loop_hit [of i s m c, OF lt] rd show ?thesis
      by (auto simp: last_at_def)
  next
    case False
    from Suc.hyps(1) [of "i - 1"] u Suc.prems Suc.hyps(2) obtain r where
      r: "last_idx_loop m c s (i - 1) = Inr r" "last_at cs c n r" by auto
    have "last_at cs c (unat i) r"
      using r(2) False Suc.hyps(2) [symmetric]
      by (auto simp: last_at_def le_Suc_eq)
    with last_idx_loop_miss [of i s m "cs ! unat i" c, OF lt rd False] r(1) show ?thesis by simp
  qed
qed

lemma sv_last_idx_empty: "sv_last_idx m c \<lparr>len = 0, ptr = p\<rparr> = Inr SV_END_POS"
  by (simp add: sv_last_idx_def last_idx_loop_out)

lemma sv_last_idx_views:
  assumes v: "views m s cs"
  shows "\<exists>r. sv_last_idx m c s = Inr r \<and>
     (if c \<in> set cs
      then unat r < length cs \<and> cs ! unat r = c \<and> (\<forall>k<length cs. unat r < k \<longrightarrow> cs ! k \<noteq> c)
      else r = SV_END_POS)"
proof (cases "cs = []")
  case True
  with v have "len s = 0" by (simp add: views_iff unat_eq_0)
  with True show ?thesis by (simp add: sv_last_idx_def last_idx_loop_out)
next
  case False
  with v have nz: "len s \<noteq> 0" by (auto simp: views_iff unat_eq_0)
  then have u: "unat (len s - 1) = length cs - 1"
    using v by (simp add: unat_minus_one views_iff)
  with False have "unat (len s - 1) < length cs" by simp
  from last_idx_loop_spec [OF v this, of c] u obtain r where
    r: "sv_last_idx m c s = Inr r" "last_at cs c (length cs - 1) r"
    by (auto simp: sv_last_idx_def)
  have le: "k \<le> length cs - 1 \<longleftrightarrow> k < length cs" for k
    using False by (cases cs) auto
  have all: "(\<forall>k\<le>length cs - 1. cs ! k \<noteq> c) \<longleftrightarrow> c \<notin> set cs"
    unfolding le by (auto simp: in_set_conv_nth)
  show ?thesis
  proof (cases "c \<in> set cs")
    case True
    with r(2) all have "unat r \<le> length cs - 1" "cs ! unat r = c"
      "\<forall>k. unat r < k \<and> k \<le> length cs - 1 \<longrightarrow> cs ! k \<noteq> c"
      unfolding last_at_def by blast+
    then have "unat r < length cs" "cs ! unat r = c" "\<forall>k<length cs. unat r < k \<longrightarrow> cs ! k \<noteq> c"
      unfolding le by blast+
    with True r(1) show ?thesis by simp
  next
    case notin: False
    with r(2) all le have "r = SV_END_POS"
      unfolding last_at_def by blast
    with notin r(1) show ?thesis by simp
  qed
qed

text \<open>
  Claim C10. On a view of length 0, \<open>sv_last_idx\<close> returns the not-found value in any
  memory, also one with no byte mapped. On a view whose bytes are mapped it returns a
  result, and the same result when every byte outside the view is unmapped, so it reads
  below the view's length only; the result is the largest index that holds \<open>c\<close>, or the
  not-found value when \<open>c\<close> does not occur.
\<close>

theorem sv_last_idx_spec:
  assumes "views m s cs"
  shows "sv_last_idx m' c \<lparr>len = 0, ptr = p\<rparr> = Inr SV_END_POS \<and>
         sv_last_idx (only_view m s) c s = sv_last_idx m c s \<and>
         (\<exists>r. sv_last_idx m c s = Inr r \<and>
              (if c \<in> set cs
               then unat r < length cs \<and> cs ! unat r = c \<and>
                    (\<forall>k<length cs. unat r < k \<longrightarrow> cs ! k \<noteq> c)
               else r = SV_END_POS))"
proof (intro conjI)
  show "sv_last_idx m' c \<lparr>len = 0, ptr = p\<rparr> = Inr SV_END_POS" by (rule sv_last_idx_empty)
  have v': "views (only_view m s) s cs"
    using assms by (simp add: views_iff only_view_def)
  from sv_last_idx_views [OF assms, of c] obtain r where
    r: "sv_last_idx m c s = Inr r"
       "if c \<in> set cs
        then unat r < length cs \<and> cs ! unat r = c \<and> (\<forall>k<length cs. unat r < k \<longrightarrow> cs ! k \<noteq> c)
        else r = SV_END_POS" by blast
  from sv_last_idx_views [OF v', of c] obtain r' where
    r': "sv_last_idx (only_view m s) c s = Inr r'"
       "if c \<in> set cs
        then unat r' < length cs \<and> cs ! unat r' = c \<and> (\<forall>k<length cs. unat r' < k \<longrightarrow> cs ! k \<noteq> c)
        else r' = SV_END_POS" by blast
  have "r' = r"
  proof (cases "c \<in> set cs")
    case False
    with r(2) r'(2) show ?thesis by simp
  next
    case True
    with r(2) r'(2) have "\<not> unat r < unat r'" "\<not> unat r' < unat r" by auto
    then have "unat r' = unat r" by simp
    then show ?thesis by (simp add: word_unat_eq_iff)
  qed
  with r(1) r'(1) show "sv_last_idx (only_view m s) c s = sv_last_idx m c s" by simp
  from r show "\<exists>r. sv_last_idx m c s = Inr r \<and>
              (if c \<in> set cs
               then unat r < length cs \<and> cs ! unat r = c \<and>
                    (\<forall>k<length cs. unat r < k \<longrightarrow> cs ! k \<noteq> c)
               else r = SV_END_POS)" by blast
qed

theorem sv_last_idx_spec_witness:
  "views (mem_of 100 ''abcab'') \<lparr>len = 5, ptr = 100\<rparr> ''abcab'' \<and>
   sv_last_idx (\<lambda>a. None) (CHR ''a'') \<lparr>len = 0, ptr = 100\<rparr> = Inr SV_END_POS \<and>
   sv_last_idx (only_view (mem_of 100 ''abcab'') \<lparr>len = 5, ptr = 100\<rparr>) (CHR ''a'') \<lparr>len = 5, ptr = 100\<rparr> =
     sv_last_idx (mem_of 100 ''abcab'') (CHR ''a'') \<lparr>len = 5, ptr = 100\<rparr> \<and>
   sv_last_idx (mem_of 100 ''abcab'') (CHR ''a'') \<lparr>len = 5, ptr = 100\<rparr> = Inr 3 \<and>
   sv_last_idx (mem_of 100 ''abcab'') (CHR ''z'') \<lparr>len = 5, ptr = 100\<rparr> = Inr SV_END_POS"
proof -
  have v: "views (mem_of 100 ''abcab'') \<lparr>len = 5, ptr = 100\<rparr> ''abcab''" by code_simp
  have a: "sv_last_idx (mem_of 100 ''abcab'') (CHR ''a'') \<lparr>len = 5, ptr = 100\<rparr> = Inr 3"
    by code_simp
  have z: "sv_last_idx (mem_of 100 ''abcab'') (CHR ''z'') \<lparr>len = 5, ptr = 100\<rparr> = Inr SV_END_POS"
    by code_simp
  from sv_last_idx_spec [OF v, of "\<lambda>a. None" "CHR ''a''" 100] v a z
  show ?thesis by simp
qed

section \<open>sv_chop_delim on a mapped view\<close>

lemma views_read:
  assumes "views m s cs" and "unat i < length cs"
  shows "i < len s" and "m (ptr s + unat i) = Some (cs ! unat i)"
  using assms by (simp_all add: views_iff word_less_nat_alt)

lemma views_end:
  assumes "views m s cs" and "unat i \<le> length cs" and "\<not> unat i < length cs"
  shows "\<not> i < len s"
  using assms by (simp add: views_iff word_less_nat_alt)

lemma skip_delims_views:
  assumes v: "views m inp cs"
  shows "unat j \<le> length cs \<Longrightarrow>
     \<exists>r. skip_delims m d inp j = Inr r \<and>
         unat r = unat j + length (takeWhile (\<lambda>x. x = d) (drop (unat j) cs))"
proof (induction "length cs - unat j" arbitrary: j)
  case 0
  then have e: "\<not> unat j < length cs" by simp
  from views_end [OF v 0(2) e] have "skip_delims m d inp j = Inr j"
    by (subst skip_delims.simps) simp
  with e show ?case by simp
next
  case (Suc n)
  then have lt: "unat j < length cs" by simp
  note rd = views_read [OF v lt]
  have dr: "drop (unat j) cs = cs ! unat j # drop (Suc (unat j)) cs"
    using lt by (simp add: Cons_nth_drop_Suc)
  show ?case
  proof (cases "cs ! unat j = d")
    case False
    with rd have "skip_delims m d inp j = Inr j"
      by (subst skip_delims.simps) simp
    with False dr show ?thesis by simp
  next
    case True
    have u: "unat (j + 1) = Suc (unat j)" using rd(1) by (rule unat_inc)
    from True rd have "skip_delims m d inp j = skip_delims m d inp (j + 1)"
      by (subst skip_delims.simps) simp
    moreover have "n = length cs - unat (j + 1)" "unat (j + 1) \<le> length cs"
      using Suc.hyps(2) lt u by simp_all
    from Suc.hyps(1) [OF this] obtain r where
      "skip_delims m d inp (j + 1) = Inr r"
      "unat r = unat (j + 1) + length (takeWhile (\<lambda>x. x = d) (drop (unat (j + 1)) cs))"
      by blast
    ultimately show ?thesis using True dr u by simp
  qed
qed

lemma chop_scan_views:
  assumes v: "views m inp cs"
  shows "unat i \<le> length cs \<Longrightarrow>
     (d \<notin> set (drop (unat i) cs) \<longrightarrow> chop_scan m d inp i = Inr None) \<and>
     (d \<in> set (drop (unat i) cs) \<longrightarrow>
        (\<exists>ol jj. chop_scan m d inp i = Inr (Some (ol, jj)) \<and>
           unat ol = unat i + length (takeWhile (\<lambda>x. x \<noteq> d) (drop (unat i) cs)) \<and>
           unat jj = length (takeWhile (\<lambda>x. x = d) (drop (unat ol) cs)) \<and>
           0 < unat jj \<and> unat ol + unat jj \<le> length cs))"
proof (induction "length cs - unat i" arbitrary: i)
  case 0
  then have e: "\<not> unat i < length cs" by simp
  from views_end [OF v 0(2) e] have "chop_scan m d inp i = Inr None"
    by (subst chop_scan.simps) simp
  with e show ?case by simp
next
  case (Suc n)
  then have lt: "unat i < length cs" by simp
  note rd = views_read [OF v lt]
  have dr: "drop (unat i) cs = cs ! unat i # drop (Suc (unat i)) cs"
    using lt by (simp add: Cons_nth_drop_Suc)
  show ?case
  proof (cases "cs ! unat i = d")
    case True
    from skip_delims_views [OF v Suc.prems, of d] obtain r where
      r: "skip_delims m d inp i = Inr r"
         "unat r = unat i + length (takeWhile (\<lambda>x. x = d) (drop (unat i) cs))"
      by blast
    have tw: "0 < length (takeWhile (\<lambda>x. x = d) (drop (unat i) cs))"
      using True dr by simp
    have "length (takeWhile (\<lambda>x. x = d) (drop (unat i) cs)) \<le> length (drop (unat i) cs)"
      by (rule length_takeWhile_le)
    then have bound: "unat r \<le> length cs" using r(2) lt by simp
    have "i \<le> r" using r(2) by (simp add: word_le_nat_alt)
    then have sub: "unat (r - i) = unat r - unat i" by (rule unat_sub)
    have "chop_scan m d inp i = Inr (Some (i, r - i))"
      using True rd r(1) by (subst chop_scan.simps) simp
    moreover have "unat i = unat i + length (takeWhile (\<lambda>x. x \<noteq> d) (drop (unat i) cs))"
      using True dr by simp
    moreover have "unat (r - i) = length (takeWhile (\<lambda>x. x = d) (drop (unat i) cs))"
      using sub r(2) by simp
    moreover have "0 < unat (r - i)" "unat i + unat (r - i) \<le> length cs"
      using sub r(2) tw bound by simp_all
    moreover have "d \<in> set (drop (unat i) cs)" using True dr by simp
    ultimately show ?thesis by blast
  next
    case False
    have u: "unat (i + 1) = Suc (unat i)" using rd(1) by (rule unat_inc)
    from False rd have eq: "chop_scan m d inp i = chop_scan m d inp (i + 1)"
      by (subst chop_scan.simps) simp
    have "n = length cs - unat (i + 1)" "unat (i + 1) \<le> length cs"
      using Suc.hyps(2) lt u by simp_all
    note IH = Suc.hyps(1) [OF this]
    have mem: "d \<in> set (drop (unat i) cs) \<longleftrightarrow> d \<in> set (drop (unat (i + 1)) cs)"
      using False dr u by auto
    have tk: "length (takeWhile (\<lambda>x. x \<noteq> d) (drop (unat i) cs)) =
        Suc (length (takeWhile (\<lambda>x. x \<noteq> d) (drop (unat (i + 1)) cs)))"
      using False dr u by simp
    show ?thesis
      using IH unfolding eq mem tk u by simp
  qed
qed

lemma views_part:
  assumes v: "views m s cs" and k: "k + unat n \<le> length cs"
  shows "views m \<lparr>len = n, ptr = ptr s + k\<rparr> (take (unat n) (drop k cs))"
proof -
  have "m (ptr s + k + i) = Some (take (unat n) (drop k cs) ! i)" if "i < unat n" for i
  proof -
    from that k have "k + i < length cs" by simp
    with v have "m (ptr s + (k + i)) = Some (cs ! (k + i))" unfolding views_iff by blast
    with that k show ?thesis by (simp add: add.assoc)
  qed
  with k show ?thesis by (simp add: views_iff)
qed

lemma sv_chop_delim_views:
  assumes v: "views m inp cs" and ne: "cs \<noteq> []"
  shows "\<exists>inp' out'. sv_chop_delim m d inp out = Inr (True, inp', out') \<and>
     views m out' (takeWhile (\<lambda>x. x \<noteq> d) cs) \<and>
     views m inp' (dropWhile (\<lambda>x. x = d) (dropWhile (\<lambda>x. x \<noteq> d) cs)) \<and>
     ptr out' = ptr inp"
proof -
  from v ne have nz: "len inp \<noteq> 0" by (auto simp: views_iff unat_eq_0)
  have l: "unat (len inp) = length cs" using v by (simp add: views_iff)
  note scan = chop_scan_views [OF v, of 0 d, simplified]
  show ?thesis
  proof (cases "d \<in> set cs")
    case False
    with scan have "chop_scan m d inp 0 = Inr None" by simp
    with nz have r: "sv_chop_delim m d inp out =
        Inr (True, inp\<lparr>len := 0\<rparr>, \<lparr>len = len inp, ptr = ptr inp\<rparr>)"
      by (simp add: sv_chop_delim_def)
    from False have tw: "takeWhile (\<lambda>x. x \<noteq> d) cs = cs" "dropWhile (\<lambda>x. x \<noteq> d) cs = []"
      by (auto simp: takeWhile_eq_all_conv)
    have "views m \<lparr>len = len inp, ptr = ptr inp\<rparr> cs" using v by (simp add: views_iff)
    moreover have "views m (inp\<lparr>len := 0\<rparr>) []" by (simp add: views_iff)
    ultimately show ?thesis using r by (simp add: tw)
  next
    case True
    with scan obtain ol jj where
      s: "chop_scan m d inp 0 = Inr (Some (ol, jj))"
         "unat ol = length (takeWhile (\<lambda>x. x \<noteq> d) cs)"
         "unat jj = length (takeWhile (\<lambda>x. x = d) (drop (unat ol) cs))"
         "0 < unat jj" "unat ol + unat jj \<le> length cs"
      by auto
    let ?inp' = "\<lparr>len = len inp - (ol + jj), ptr = ptr inp + unat (ol + jj)\<rparr>"
    let ?out' = "\<lparr>len = ol, ptr = ptr inp\<rparr>"
    from s(1) nz have r: "sv_chop_delim m d inp out = Inr (True, ?inp', ?out')"
      by (simp add: sv_chop_delim_def)
    have "unat (len inp) < 2 ^ LENGTH(64)" by (rule unsigned_less)
    then have "length cs < 2 ^ 64" using l by simp
    with s(5) have sum: "unat (ol + jj) = unat ol + unat jj"
      by (simp add: unat_add_lem [THEN iffD1])
    with s(5) l have "ol + jj \<le> len inp" by (simp add: word_le_nat_alt)
    then have sub: "unat (len inp - (ol + jj)) = length cs - (unat ol + unat jj)"
      using sum l by (simp add: unat_sub)
    have dw: "dropWhile (\<lambda>x. x \<noteq> d) cs = drop (unat ol) cs"
      using s(2) by (simp add: dropWhile_eq_drop)
    have "views m \<lparr>len = ol, ptr = ptr inp + 0\<rparr> (take (unat ol) (drop 0 cs))"
      using s(5) by (intro views_part [OF v]) simp
    moreover have "takeWhile (\<lambda>x. x \<noteq> d) cs = take (unat ol) cs"
      by (subst takeWhile_eq_take) (simp add: s(2))
    ultimately have o: "views m ?out' (takeWhile (\<lambda>x. x \<noteq> d) cs)"
      by simp
    have "views m \<lparr>len = len inp - (ol + jj), ptr = ptr inp + (unat ol + unat jj)\<rparr>
        (take (unat (len inp - (ol + jj))) (drop (unat ol + unat jj) cs))"
      using sub s(5) by (intro views_part [OF v]) simp
    moreover have "dropWhile (\<lambda>x. x = d) (drop (unat ol) cs) = drop (unat ol + unat jj) cs"
      using s(3) by (simp add: dropWhile_eq_drop add.commute)
    ultimately have i: "views m ?inp' (dropWhile (\<lambda>x. x = d) (dropWhile (\<lambda>x. x \<noteq> d) cs))"
      using sub sum dw by simp
    from r o i show ?thesis by simp
  qed
qed

text \<open>
  Claim C3, as amended. On a view that is not empty, a call of \<open>sv_chop_delim\<close> returns
  true, yields the bytes before the first delimiter, and leaves the input after the whole
  run of delimiters that follows them (empty if there is no delimiter), so consecutive
  delimiters separate once. The yielded view holds no delimiter. It is empty exactly when
  the input begins with the delimiter; what is left never begins with it. Splitting
  \<open>cat\<newline>dog\<newline>\<newline>bird\<close> at newlines, as \<open>init_words\<close> does, yields \<open>cat\<close>, \<open>dog\<close>, \<open>bird\<close>.
\<close>

theorem sv_chop_delim_spec:
  assumes "views m inp cs" and "cs \<noteq> []"
  shows "(\<exists>inp' out'. sv_chop_delim m d inp out = Inr (True, inp', out') \<and>
            views m out' (takeWhile (\<lambda>x. x \<noteq> d) cs) \<and>
            views m inp' (dropWhile (\<lambda>x. x = d) (dropWhile (\<lambda>x. x \<noteq> d) cs)) \<and>
            ptr out' = ptr inp) \<and>
         d \<notin> set (takeWhile (\<lambda>x. x \<noteq> d) cs) \<and>
         (takeWhile (\<lambda>x. x \<noteq> d) cs = [] \<longleftrightarrow> hd cs = d) \<and>
         (dropWhile (\<lambda>x. x = d) (dropWhile (\<lambda>x. x \<noteq> d) cs) = [] \<or>
          hd (dropWhile (\<lambda>x. x = d) (dropWhile (\<lambda>x. x \<noteq> d) cs)) \<noteq> d) \<and>
         init_words (mem_of 100 demo_file) \<lparr>len = 13, ptr = 100\<rparr> buf =
           Some (Inr [\<lparr>len = 3, ptr = 100\<rparr>, \<lparr>len = 3, ptr = 104\<rparr>, \<lparr>len = 4, ptr = 109\<rparr>]) \<and>
         views (mem_of 100 demo_file) \<lparr>len = 3, ptr = 100\<rparr> ''cat'' \<and>
         views (mem_of 100 demo_file) \<lparr>len = 3, ptr = 104\<rparr> ''dog'' \<and>
         views (mem_of 100 demo_file) \<lparr>len = 4, ptr = 109\<rparr> ''bird''"
proof (intro conjI)
  show "\<exists>inp' out'. sv_chop_delim m d inp out = Inr (True, inp', out') \<and>
            views m out' (takeWhile (\<lambda>x. x \<noteq> d) cs) \<and>
            views m inp' (dropWhile (\<lambda>x. x = d) (dropWhile (\<lambda>x. x \<noteq> d) cs)) \<and>
            ptr out' = ptr inp"
    using assms by (rule sv_chop_delim_views)
  show "d \<notin> set (takeWhile (\<lambda>x. x \<noteq> d) cs)"
    by (auto dest: set_takeWhileD)
  show "takeWhile (\<lambda>x. x \<noteq> d) cs = [] \<longleftrightarrow> hd cs = d"
    using assms(2) by (cases cs) auto
  show "dropWhile (\<lambda>x. x = d) (dropWhile (\<lambda>x. x \<noteq> d) cs) = [] \<or>
          hd (dropWhile (\<lambda>x. x = d) (dropWhile (\<lambda>x. x \<noteq> d) cs)) \<noteq> d"
    using hd_dropWhile [of "\<lambda>x. x = d" "dropWhile (\<lambda>x. x \<noteq> d) cs"] by blast
  show "init_words (mem_of 100 demo_file) \<lparr>len = 13, ptr = 100\<rparr> buf =
           Some (Inr [\<lparr>len = 3, ptr = 100\<rparr>, \<lparr>len = 3, ptr = 104\<rparr>, \<lparr>len = 4, ptr = 109\<rparr>])"
    by code_simp
  show "views (mem_of 100 demo_file) \<lparr>len = 3, ptr = 100\<rparr> ''cat''" by code_simp
  show "views (mem_of 100 demo_file) \<lparr>len = 3, ptr = 104\<rparr> ''dog''" by code_simp
  show "views (mem_of 100 demo_file) \<lparr>len = 4, ptr = 109\<rparr> ''bird''" by code_simp
qed

theorem sv_chop_delim_spec_witness:
  "views (mem_of 100 ''A    space'') \<lparr>len = 10, ptr = 100\<rparr> ''A    space'' \<and>
   ''A    space'' \<noteq> [] \<and>
   (\<exists>inp' out'. sv_chop_delim (mem_of 100 ''A    space'') (CHR '' '') \<lparr>len = 10, ptr = 100\<rparr>
                   \<lparr>len = 0, ptr = 0\<rparr> = Inr (True, inp', out') \<and>
        views (mem_of 100 ''A    space'') out' ''A'' \<and>
        views (mem_of 100 ''A    space'') inp' ''space'')"
proof -
  have v: "views (mem_of 100 ''A    space'') \<lparr>len = 10, ptr = 100\<rparr> ''A    space''"
    by code_simp
  have ne: "''A    space'' \<noteq> []" by simp
  from sv_chop_delim_spec [OF v ne, of "CHR '' ''" "\<lparr>len = 0, ptr = 0\<rparr>" "\<lparr>len = 0, ptr = 0\<rparr>"]
  have "\<exists>inp' out'. sv_chop_delim (mem_of 100 ''A    space'') (CHR '' '') \<lparr>len = 10, ptr = 100\<rparr>
                   \<lparr>len = 0, ptr = 0\<rparr> = Inr (True, inp', out') \<and>
        views (mem_of 100 ''A    space'') out' ''A'' \<and>
        views (mem_of 100 ''A    space'') inp' ''space'' \<and> ptr out' = 100"
    by simp
  with v show ?thesis by auto
qed

text \<open>
  The claim as it stands says that a call first skips a leading run of delimiters, so that
  no yielded view is empty. On a view that begins with a newline the first call yields the
  empty view at its start and leaves the input after the newline.
\<close>

theorem leading_delimiter_yields_empty:
  "sv_chop_delim (mem_of 100 (NEWLINE # ''cat'')) NEWLINE \<lparr>len = 4, ptr = 100\<rparr> \<lparr>len = 0, ptr = 0\<rparr> =
     Inr (True, \<lparr>len = 3, ptr = 101\<rparr>, \<lparr>len = 0, ptr = 100\<rparr>)"
  by code_simp

section \<open>The tokenizing loop ends\<close>

lemma skip_delims_range:
  "skip_delims m d inp j = Inr r \<Longrightarrow> j \<le> len inp \<Longrightarrow> j \<le> r \<and> r \<le> len inp"
proof (induction m d inp j rule: skip_delims.induct)
  case (1 m delim inp j)
  show ?case
  proof (cases "j < len inp")
    case False
    with "1.prems" show ?thesis by (subst (asm) skip_delims.simps) simp
  next
    case True
    then have step: "j \<le> j + 1" "j + 1 \<le> len inp"
      by (simp_all add: word_le_nat_alt word_less_nat_alt unat_inc [OF True])
    from "1.prems"(1) True obtain b where b: "m (ptr inp + unat j) = Some b"
      by (subst (asm) skip_delims.simps) (auto split: option.splits)
    show ?thesis
    proof (cases "b = delim")
      case False
      with "1.prems" True b show ?thesis by (subst (asm) skip_delims.simps) simp
    next
      case eq: True
      with "1.prems"(1) True b have "skip_delims m delim inp (j + 1) = Inr r"
        by (subst (asm) skip_delims.simps) simp
      from "1.IH" [OF True b eq this step(2)] step(1) show ?thesis by auto
    qed
  qed
qed

lemma skip_delims_advances:
  assumes "skip_delims m d inp j = Inr r" and "j < len inp" and "m (ptr inp + unat j) = Some d"
  shows "j < r \<and> r \<le> len inp"
proof -
  from assms have "skip_delims m d inp (j + 1) = Inr r"
    by (subst (asm) skip_delims.simps) simp
  moreover have step: "j < j + 1" "j + 1 \<le> len inp"
    using assms(2) by (simp_all add: word_le_nat_alt word_less_nat_alt unat_inc [OF assms(2)])
  ultimately have "j + 1 \<le> r \<and> r \<le> len inp" by (intro skip_delims_range)
  with step(1) show ?thesis by auto
qed

lemma chop_scan_found:
  "chop_scan m d inp i = Inr (Some (ol, jj)) \<Longrightarrow> ol < ol + jj \<and> ol + jj \<le> len inp"
proof (induction m d inp i rule: chop_scan.induct)
  case (1 m delim inp i)
  from "1.prems" have lt: "i < len inp"
    by (subst (asm) chop_scan.simps) (simp split: if_splits)
  with "1.prems" obtain b where b: "m (ptr inp + unat i) = Some b"
    by (subst (asm) chop_scan.simps) (auto split: option.splits)
  show ?case
  proof (cases "b = delim")
    case False
    with "1.prems" lt b have "chop_scan m delim inp (i + 1) = Inr (Some (ol, jj))"
      by (subst (asm) chop_scan.simps) simp
    from "1.IH" [OF lt b False this] show ?thesis .
  next
    case True
    with "1.prems" lt b obtain r where r: "skip_delims m delim inp i = Inr r"
      and res: "ol = i" "jj = r - i"
      by (subst (asm) chop_scan.simps) (auto split: sum.splits)
    from skip_delims_advances [OF r lt] b True have "i < r \<and> r \<le> len inp" by simp
    with res show ?thesis by simp
  qed
qed

lemma sv_chop_delim_flag:
  "sv_chop_delim m d inp out = Inr (b, inp', out') \<Longrightarrow> (\<not> b) = (len inp = 0)"
  by (auto simp: sv_chop_delim_def split: if_splits sum.splits option.splits)

lemma sv_chop_delim_decreases:
  assumes "sv_chop_delim m d inp out = Inr (True, inp', out')"
  shows "len inp' < len inp"
proof -
  from assms have nz: "len inp \<noteq> 0"
    by (auto simp: sv_chop_delim_def split: if_splits)
  then have pos: "0 < len inp" by (simp add: word_neq_0_conv)
  show ?thesis
  proof (cases "chop_scan m d inp 0")
    case (Inl e)
    with assms nz show ?thesis by (simp add: sv_chop_delim_def)
  next
    case (Inr found)
    show ?thesis
    proof (cases found)
      case None
      with Inr assms nz pos show ?thesis by (auto simp: sv_chop_delim_def)
    next
      case (Some p)
      obtain ol jj where p: "p = (ol, jj)" by (cases p)
      from chop_scan_found [of m d inp 0 ol jj] Inr Some p
      have "ol < ol + jj" "ol + jj \<le> len inp" by simp_all
      then have "0 < ol + jj" "ol + jj \<le> len inp"
        by (simp_all add: word_neq_0_conv [symmetric]) auto
      then have "len inp - (ol + jj) < len inp" by unat_arith
      with Inr Some p assms nz show ?thesis by (auto simp: sv_chop_delim_def)
    qed
  qed
qed

lemma words_loop_returns: "\<exists>r. words_loop m cap file buf arr = Some r"
proof (induction "unat (len file)" arbitrary: "file" buf arr rule: less_induct)
  case less
  show ?case
  proof (cases "sv_chop_delim m NEWLINE file buf")
    case (Inl e)
    then show ?thesis by (subst words_loop.simps) simp
  next
    case (Inr res)
    obtain again file' buf' where res: "res = (again, file', buf')" by (cases res)
    show ?thesis
    proof (cases "again \<and> length arr < cap")
      case False
      with Inr res show ?thesis by (subst words_loop.simps) auto
    next
      case True
      with Inr res have "len file' < len file" by (auto intro: sv_chop_delim_decreases)
      then have "unat (len file') < unat (len file)" by (simp add: word_less_nat_alt)
      from less [OF this, of buf' "arr @ [buf']"] obtain r where
        "words_loop m cap file' buf' (arr @ [buf']) = Some r" by blast
      with Inr res True show ?thesis by (subst words_loop.simps) simp
    qed
  qed
qed

lemma init_words_returns: "\<exists>r. init_words m file buf = Some r"
  using words_loop_returns by (simp add: init_words_def split: sum.splits)

text \<open>
  Claim C8. Whenever \<open>sv_chop_delim\<close> returns, it returns false exactly when the input
  view is empty, and when it returns true the input view has become strictly shorter; on
  a mapped view it does return. So the loop of \<open>init_words\<close> and \<open>choose_solution\<close> ends
  for every memory, file view, buffer and array: it has a result.
\<close>

theorem sv_chop_delim_terminates:
  "(\<forall>b inp' out'. sv_chop_delim m d inp out = Inr (b, inp', out') \<longrightarrow>
       ((\<not> b) = (len inp = 0)) \<and> (b \<longrightarrow> len inp' < len inp)) \<and>
   (views m inp cs \<longrightarrow> (\<exists>b inp' out'. sv_chop_delim m d inp out = Inr (b, inp', out'))) \<and>
   (\<exists>r. words_loop m cap inp out arr = Some r) \<and>
   (\<exists>r. init_words m inp out = Some r)"
proof (intro conjI allI impI)
  fix b inp' out'
  assume r: "sv_chop_delim m d inp out = Inr (b, inp', out')"
  then show "(\<not> b) = (len inp = 0)" by (rule sv_chop_delim_flag)
  assume b
  with r show "len inp' < len inp" by (auto intro: sv_chop_delim_decreases)
next
  assume v: "views m inp cs"
  show "\<exists>b inp' out'. sv_chop_delim m d inp out = Inr (b, inp', out')"
  proof (cases "cs = []")
    case True
    with v have "len inp = 0" by (simp add: views_iff unat_eq_0)
    then have "sv_chop_delim m d inp out = Inr (False, inp, out)"
      by (simp add: sv_chop_delim_def)
    then show ?thesis by blast
  next
    case False
    from sv_chop_delim_views [OF v False, of d out] show ?thesis by blast
  qed
next
  show "\<exists>r. words_loop m cap inp out arr = Some r" by (rule words_loop_returns)
  show "\<exists>r. init_words m inp out = Some r" by (rule init_words_returns)
qed

theorem sv_chop_delim_terminates_witness:
  "sv_chop_delim (mem_of 100 demo_file) NEWLINE \<lparr>len = 13, ptr = 100\<rparr> \<lparr>len = 0, ptr = 0\<rparr> =
     Inr (True, \<lparr>len = 9, ptr = 104\<rparr>, \<lparr>len = 3, ptr = 100\<rparr>) \<and>
   len \<lparr>len = 13 :: size_t, ptr = 100\<rparr> \<noteq> 0 \<and>
   len \<lparr>len = 9 :: size_t, ptr = 104\<rparr> < len \<lparr>len = 13 :: size_t, ptr = 100\<rparr> \<and>
   views (mem_of 100 demo_file) \<lparr>len = 13, ptr = 100\<rparr> demo_file \<and>
   (\<exists>r. words_loop (mem_of 100 demo_file) 3 \<lparr>len = 13, ptr = 100\<rparr> \<lparr>len = 0, ptr = 0\<rparr> [] = Some r)"
proof -
  have e: "sv_chop_delim (mem_of 100 demo_file) NEWLINE \<lparr>len = 13, ptr = 100\<rparr> \<lparr>len = 0, ptr = 0\<rparr> =
     Inr (True, \<lparr>len = 9, ptr = 104\<rparr>, \<lparr>len = 3, ptr = 100\<rparr>)"
    by code_simp
  have v: "views (mem_of 100 demo_file) \<lparr>len = 13, ptr = 100\<rparr> demo_file" by code_simp
  from sv_chop_delim_terminates [of "mem_of 100 demo_file" NEWLINE "\<lparr>len = 13, ptr = 100\<rparr>"
      "\<lparr>len = 0, ptr = 0\<rparr>" demo_file 3 "[]"] e v
  show ?thesis by simp
qed

section \<open>Scoring: the result of qualify_guess\<close>

lemma cstr_at_in: "k < length s \<Longrightarrow> cstr_at s k = Inr (s ! k)"
  by (simp add: cstr_at_def)

lemma cstr_at_no_assert: "cstr_at s k \<noteq> Inl AssertFailed"
  by (simp add: cstr_at_def)

lemma qualify_loop_not_Unknown: "qualify_loop m solution guess c k \<noteq> Inr Unknown"
proof (induction m solution guess c k rule: qualify_loop.induct)
  case (1 m solution guess c k)
  show ?case
    using "1.IH"
    by (subst qualify_loop.simps) (auto split: option.splits sum.splits)
qed

lemma qualify_loop_no_assert: "qualify_loop m solution guess c k \<noteq> Inl AssertFailed"
proof (induction m solution guess c k rule: qualify_loop.induct)
  case (1 m solution guess c k)
  show ?case
    using "1.IH" cstr_at_no_assert [of guess k]
    by (subst qualify_loop.simps) (auto split: option.splits sum.splits)
qed

lemma qualify_guess_not_Unknown: "qualify_guess m solution guess p \<noteq> Inr Unknown"
  using qualify_loop_not_Unknown [of m solution guess _ 0]
  by (auto simp: qualify_guess_def split: option.splits sum.splits)

lemma qualify_guess_no_assert: "qualify_guess m solution guess p \<noteq> Inl AssertFailed"
  using qualify_loop_no_assert [of m solution guess _ 0] cstr_at_no_assert [of guess p]
  by (auto simp: qualify_guess_def split: option.splits sum.splits)

lemma update_alphabet_assert:
  "update_alphabet alpha c q = Inl AssertFailed \<Longrightarrow> q = Unknown"
  by (auto simp: update_alphabet_def overrides_def Let_def split: if_splits sum.splits)

lemma color_loop_no_assert: "color_loop m solution guess k alpha shown \<noteq> Inl AssertFailed"
proof (induction m solution guess k alpha shown rule: color_loop.induct)
  case (1 m solution guess k alpha shown)
  show ?case
  proof (cases "k < LETTERS")
    case False
    then show ?thesis by (subst color_loop.simps) simp
  next
    case True
    show ?thesis
    proof (cases "qualify_guess m solution guess k")
      case (Inl e)
      with True qualify_guess_no_assert [of m solution guess k] show ?thesis
        by (subst color_loop.simps) auto
    next
      case q: (Inr q)
      then have qU: "q \<noteq> Unknown"
        using qualify_guess_not_Unknown [of m solution guess k] by auto
      show ?thesis
      proof (cases "cstr_at guess k")
        case (Inl e)
        with True q cstr_at_no_assert [of guess k] show ?thesis
          by (subst color_loop.simps) auto
      next
        case c: (Inr c)
        show ?thesis
        proof (cases "update_alphabet alpha c q")
          case (Inl e)
          with qU update_alphabet_assert [of alpha c q] have "e \<noteq> AssertFailed" by auto
          with True q c Inl show ?thesis
            by (subst color_loop.simps) auto
        next
          case (Inr alpha')
          with True q c "1.IH" [OF True q c Inr] show ?thesis
            by (subst color_loop.simps) auto
        qed
      qed
    qed
  qed
qed

text \<open>
  Claim C9. For every guess, solution and position, qualify_guess never returns Unknown;
  so the assertion \<open>new != Unknown\<close> of overrides holds at every call made while a guess
  is scored: color_word_and_update_alphabet never ends in a failed assertion, whatever the
  memory, the solution view, the guess and the alphabet are.
\<close>

theorem scoring_never_Unknown:
  "qualify_guess m solution guess p \<noteq> Inr Unknown \<and>
   color_word_and_update_alphabet m solution guess alpha \<noteq> Inl AssertFailed"
  using qualify_guess_not_Unknown [of m solution guess p]
    color_loop_no_assert [of m solution guess 0 alpha "[]"]
  by (simp add: color_word_and_update_alphabet_def)

lemma ex_from_split: "(\<exists>j\<ge>k. P j) \<longleftrightarrow> P k \<or> (\<exists>j\<ge>Suc k. P j)"
proof
  assume "\<exists>j\<ge>k. P j"
  then obtain j where j: "k \<le> j" "P j" by blast
  show "P k \<or> (\<exists>j\<ge>Suc k. P j)"
  proof (cases "j = k")
    case True
    with j show ?thesis by simp
  next
    case False
    with j have "Suc k \<le> j" by simp
    with j show ?thesis by blast
  qed
next
  assume "P k \<or> (\<exists>j\<ge>Suc k. P j)"
  then show "\<exists>j\<ge>k. P j"
    by (auto intro: Suc_leD)
qed

lemma qualify_loop_spec:
  assumes v: "views m solution sol" and ls: "length sol = LETTERS" and lg: "length guess = LETTERS"
  shows "k \<le> LETTERS \<Longrightarrow> qualify_loop m solution guess c k =
     Inr (if \<exists>j\<ge>k. j < LETTERS \<and> sol ! j = c \<and> guess ! j \<noteq> c then WrongPlace else Wrong)"
proof (induction "LETTERS - k" arbitrary: k)
  case 0
  then have "\<not> k < LETTERS" by simp
  then have "\<not> (\<exists>j\<ge>k. j < LETTERS \<and> sol ! j = c \<and> guess ! j \<noteq> c)" by auto
  with \<open>\<not> k < LETTERS\<close> show ?case by (subst qualify_loop.simps) simp
next
  case (Suc n)
  then have k: "k < LETTERS" by simp
  have IH: "qualify_loop m solution guess c (Suc k) =
     Inr (if \<exists>j\<ge>Suc k. j < LETTERS \<and> sol ! j = c \<and> guess ! j \<noteq> c then WrongPlace else Wrong)"
    using Suc.hyps(1) [of "Suc k"] Suc.hyps(2) k by simp
  have mk: "m (ptr solution + k) = Some (sol ! k)"
    using v ls k by (simp add: views_iff)
  have gk: "cstr_at guess k = Inr (guess ! k)"
    using lg k by (simp add: cstr_at_in)
  note split = ex_from_split [of k "\<lambda>j. j < LETTERS \<and> sol ! j = c \<and> guess ! j \<noteq> c"]
  show ?case
  proof (cases "sol ! k = c \<and> guess ! k \<noteq> c")
    case True
    then have "qualify_loop m solution guess c k = Inr WrongPlace"
      using k mk gk by (subst qualify_loop.simps) simp
    moreover have "\<exists>j\<ge>k. j < LETTERS \<and> sol ! j = c \<and> guess ! j \<noteq> c"
      using True k split by blast
    ultimately show ?thesis by (simp only: if_True)
  next
    case False
    then have "qualify_loop m solution guess c k = qualify_loop m solution guess c (Suc k)"
      using k mk gk by (subst qualify_loop.simps) auto
    moreover have "(\<exists>j\<ge>k. j < LETTERS \<and> sol ! j = c \<and> guess ! j \<noteq> c) \<longleftrightarrow>
        (\<exists>j\<ge>Suc k. j < LETTERS \<and> sol ! j = c \<and> guess ! j \<noteq> c)"
      using False split by blast
    ultimately show ?thesis using IH by (simp only:)
  qed
qed

lemma qualify_guess_views:
  assumes "views m solution sol" and "length sol = LETTERS" and "length guess = LETTERS"
    and "p < LETTERS"
  shows "qualify_guess m solution guess p =
     Inr (if guess ! p = sol ! p then RightPlace
          else if \<exists>j<LETTERS. sol ! j = guess ! p \<and> guess ! j \<noteq> sol ! j then WrongPlace
          else Wrong)"
proof -
  have mp: "m (ptr solution + p) = Some (sol ! p)" and gp: "cstr_at guess p = Inr (guess ! p)"
    using assms by (auto simp: views_iff cstr_at_in)
  have "(\<exists>j<LETTERS. sol ! j = guess ! p \<and> guess ! j \<noteq> sol ! j) \<longleftrightarrow>
        (\<exists>j. 0 \<le> j \<and> j < LETTERS \<and> sol ! j = guess ! p \<and> guess ! j \<noteq> guess ! p)"
    by auto
  then show ?thesis
    using mp gp qualify_loop_spec [OF assms(1-3), of 0 "guess ! p"]
    by (auto simp: qualify_guess_def)
qed

text \<open>
  Claim C1. For 5-letter sequences guess and solution and every position p in 0..4,
  qualify_guess returns RightPlace if guess[p] = solution[p]; otherwise WrongPlace if some
  index j has solution[j] = guess[p] and guess[j] \<noteq> solution[j]; otherwise Wrong. The test
  is an existence check: no occurrence of a letter of the solution is used up.
\<close>

theorem qualify_guess_spec:
  assumes "views m solution sol" and "length sol = LETTERS" and "length guess = LETTERS"
    and "p < LETTERS"
  shows "qualify_guess m solution guess p =
     Inr (if guess ! p = sol ! p then RightPlace
          else if \<exists>j<LETTERS. sol ! j = guess ! p \<and> guess ! j \<noteq> sol ! j then WrongPlace
          else Wrong)"
  using assms by (rule qualify_guess_views)

theorem qualify_guess_spec_witness:
  "views (mem_of 100 ''crane'') \<lparr>len = 5, ptr = 100\<rparr> ''crane'' \<and>
   length ''crane'' = LETTERS \<and> length ''trace'' = LETTERS \<and> (3::nat) < LETTERS \<and>
   qualify_guess (mem_of 100 ''crane'') \<lparr>len = 5, ptr = 100\<rparr> ''trace'' 3 = Inr WrongPlace"
proof -
  have v: "views (mem_of 100 ''crane'') \<lparr>len = 5, ptr = 100\<rparr> ''crane''"
    by code_simp
  have e: "\<exists>j<LETTERS. ''crane'' ! j = ''trace'' ! 3 \<and> ''trace'' ! j \<noteq> ''crane'' ! j"
    by (rule exI [of _ 0]) simp
  show ?thesis
    using v e qualify_guess_spec [OF v, of "''trace''" 3] by simp
qed

section \<open>The decision table of overrides\<close>

text \<open>
  Claim C2. For every determined proposed quality (one that is not Unknown):
  overrides(RightPlace, proposed) is false, overrides(Unknown, proposed) and
  overrides(Wrong, proposed) are true, overrides(WrongPlace, RightPlace) is true, and
  overrides(WrongPlace, WrongPlace) and overrides(WrongPlace, Wrong) are false.
\<close>

theorem overrides_table:
  "proposed \<noteq> Unknown \<Longrightarrow>
     overrides RightPlace proposed = Inr False \<and>
     overrides Unknown proposed = Inr True \<and>
     overrides Wrong proposed = Inr True \<and>
     overrides WrongPlace RightPlace = Inr True \<and>
     overrides WrongPlace WrongPlace = Inr False \<and>
     overrides WrongPlace Wrong = Inr False"
  by (simp add: overrides_def)

theorem overrides_table_witness:
  "Wrong \<noteq> Unknown \<and>
     overrides RightPlace Wrong = Inr False \<and>
     overrides Unknown Wrong = Inr True \<and>
     overrides Wrong Wrong = Inr True \<and>
     overrides WrongPlace RightPlace = Inr True \<and>
     overrides WrongPlace WrongPlace = Inr False \<and>
     overrides WrongPlace Wrong = Inr False"
  using overrides_table [of Wrong] by simp


section \<open>The alphabet never loses information\<close>

lemma never_lower_refl: "never_lower alpha alpha"
  by (simp add: never_lower_def)

lemma never_lower_trans:
  assumes ab: "never_lower a b" and bc: "never_lower b c"
  shows "never_lower a c"
proof -
  have len: "length b = length a" "length c = length b"
    using ab bc by (simp_all add: never_lower_def)
  have "chr (c ! l) = chr (a ! l) \<and>
        (quality (c ! l) = quality (a ! l) \<or>
         priority (quality (a ! l)) < priority (quality (c ! l)))" if l: "l < length a" for l
  proof -
    from ab l have 1: "chr (b ! l) = chr (a ! l)"
      "quality (b ! l) = quality (a ! l) \<or> priority (quality (a ! l)) < priority (quality (b ! l))"
      by (simp_all add: never_lower_def)
    from bc l len have 2: "chr (c ! l) = chr (b ! l)"
      "quality (c ! l) = quality (b ! l) \<or> priority (quality (b ! l)) < priority (quality (c ! l))"
      by (simp_all add: never_lower_def)
    from 1 2 show ?thesis by auto
  qed
  with len show ?thesis by (simp add: never_lower_def)
qed

lemma priority_overrides:
  "overrides orig new = Inr True \<Longrightarrow> new = orig \<or> priority orig < priority new"
  by (cases orig; cases new) (simp_all add: overrides_def)

lemma update_alphabet_never_lower:
  assumes "update_alphabet alpha c q = Inr alpha'"
  shows "never_lower alpha alpha'"
proof -
  define k where "k = nat (char_to_int c - ASCII_A)"
  from assms consider
      (same) "alpha' = alpha"
    | (upd) "k < length alpha" "overrides (quality (alpha ! k)) q = Inr True"
            "alpha' = alpha[k := (alpha ! k)\<lparr>quality := q\<rparr>]"
    by (auto simp: update_alphabet_def Let_def k_def split: if_splits sum.splits)
  then show ?thesis
  proof cases
    case same
    then show ?thesis by (simp add: never_lower_refl)
  next
    case upd
    from priority_overrides [OF upd(2)]
    have "q = quality (alpha ! k) \<or> priority (quality (alpha ! k)) < priority q" .
    with upd(1,3) show ?thesis
      by (auto simp: never_lower_def nth_list_update)
  qed
qed

lemma letter_index:
  assumes "c \<in> chr ` set init_alphabet"
  shows "0 \<le> char_to_int c - ASCII_A \<and> char_to_int c - ASCII_A < 26"
proof -
  from assms obtain n :: nat where n: "n < 26" and c: "c = char_of (n + 0x61)"
    by (auto simp: init_alphabet_def)
  have "(of_char c :: nat) = (n + 0x61) mod 256"
    unfolding c by (simp only: of_char_of)
  then have "(of_char c :: int) = int ((n + 0x61) mod 256)"
    by (simp only: of_nat_of_char [symmetric, where ?'a = int])
  with n have "(of_char c :: int) = int n + 0x61" by simp
  with n show ?thesis by (simp add: char_to_int_def)
qed

lemma update_alphabet_total:
  assumes "c \<in> chr ` set init_alphabet" and "length alpha = 26" and "q \<noteq> Unknown"
  shows "\<exists>alpha'. update_alphabet alpha c q = Inr alpha'"
  using letter_index [OF assms(1)] assms(2,3)
  by (auto simp: update_alphabet_def Let_def overrides_def)

lemma update_all_never_lower:
  "update_all alpha ups = Inr alpha' \<Longrightarrow> never_lower alpha alpha'"
proof (induction ups arbitrary: alpha)
  case Nil
  then show ?case by (simp add: never_lower_refl)
next
  case (Cons u ups)
  obtain c q where u: "u = (c, q)" by (cases u)
  from Cons.prems u obtain a1 where a1: "update_alphabet alpha c q = Inr a1"
    and rest: "update_all a1 ups = Inr alpha'"
    by (auto split: sum.splits)
  from update_alphabet_never_lower [OF a1] Cons.IH [OF rest]
  show ?case by (rule never_lower_trans)
qed

lemma update_all_total:
  assumes "length alpha = 26"
    and "\<forall>(c, q) \<in> set ups. c \<in> chr ` set init_alphabet \<and> q \<noteq> Unknown"
  shows "\<exists>alpha'. update_all alpha ups = Inr alpha'"
  using assms
proof (induction ups arbitrary: alpha)
  case Nil
  then show ?case by simp
next
  case (Cons u ups)
  obtain c q where u: "u = (c, q)" by (cases u)
  with Cons.prems have cq: "c \<in> chr ` set init_alphabet" "q \<noteq> Unknown" by auto
  from update_alphabet_total [OF cq(1) Cons.prems(1) cq(2)]
  obtain a1 where a1: "update_alphabet alpha c q = Inr a1" by blast
  from update_alphabet_never_lower [OF a1] Cons.prems(1) have "length a1 = 26"
    by (simp add: never_lower_def)
  from Cons.IH [OF this] Cons.prems(2) obtain alpha' where "update_all a1 ups = Inr alpha'"
    by auto
  with a1 u show ?case by simp
qed

section \<open>Views against C strings, and the loop that colours a word\<close>

lemma those_map_Some: "those (map Some xs) = Some xs"
  by (induction xs) simp_all

lemma sv_cstr_eq_views:
  assumes v: "views m s cs" and w: "length w < 2 ^ 64"
  shows "sv_cstr_eq m s w = Inr (w = cs)"
proof -
  have l: "unat (len s) = length cs" and
    rd: "map (\<lambda>k. m (ptr s + k)) [0..<length cs] = map Some cs"
    using v by (simp_all add: views_def)
  have "unat (of_nat (length w) :: size_t) = length w"
    using w by (simp add: unat_of_nat)
  then have eq: "len s = of_nat (length w) \<longleftrightarrow> length w = length cs"
    using l by (auto simp: word_unat_eq_iff)
  show ?thesis
  proof (cases "length w = length cs")
    case True
    with eq have "len s = of_nat (length w)" by simp
    moreover have "those (map (\<lambda>k. m (ptr s + k)) [0..<unat (len s)]) = Some cs"
      using l rd by (simp add: those_map_Some)
    moreover have "take (unat (len s)) w = w" using l True by simp
    ultimately have "sv_cstr_eq m s w = Inr (cs = w)"
      by (simp add: sv_cstr_eq_def)
    then show ?thesis by (simp add: eq_commute [of cs w])
  next
    case False
    with eq show ?thesis by (auto simp: sv_cstr_eq_def)
  qed
qed

lemma valid_corpus:
  assumes "list_all2 (views m) words corpus" and "length w < 2 ^ 64"
  shows "valid m words w = Inr (w \<in> set corpus)"
  using assms(1)
proof (induction words corpus rule: list_all2_induct)
  case Nil
  then show ?case by simp
next
  case (Cons s ss cs css)
  from sv_cstr_eq_views [OF Cons.hyps(1) assms(2)] Cons.IH show ?case by auto
qed

lemma color_loop_updates:
  "color_loop m solution guess k alpha shown = Inr (alpha', shown') \<Longrightarrow>
     \<exists>ups. shown' = shown @ ups \<and> update_all alpha ups = Inr alpha'"
proof (induction "LETTERS - k" arbitrary: k alpha shown)
  case 0
  then have "\<not> k < LETTERS" by simp
  with 0(2) show ?case by (subst (asm) color_loop.simps) simp
next
  case (Suc n)
  then have k: "k < LETTERS" by simp
  from Suc.prems k obtain q c a1 where
    q: "qualify_guess m solution guess k = Inr q" and
    c: "cstr_at guess k = Inr c" and
    a1: "update_alphabet alpha c q = Inr a1" and
    rest: "color_loop m solution guess (Suc k) a1 (shown @ [(c, q)]) = Inr (alpha', shown')"
    by (subst (asm) color_loop.simps) (auto split: sum.splits)
  from Suc.hyps(2) have n: "n = LETTERS - Suc k" by simp
  from Suc.hyps(1) [of "Suc k", OF n rest]
  obtain ups where "shown' = (shown @ [(c, q)]) @ ups" "update_all a1 ups = Inr alpha'"
    by auto
  with a1 have "shown' = shown @ ((c, q) # ups) \<and> update_all alpha ((c, q) # ups) = Inr alpha'"
    by simp
  then show ?case by blast
qed

lemma color_word_never_lower:
  "color_word_and_update_alphabet m solution guess alpha = Inr (alpha', shown') \<Longrightarrow>
     never_lower alpha alpha'"
  using color_loop_updates [of m solution guess 0 alpha "[]" alpha' shown'] update_all_never_lower
  by (auto simp: color_word_and_update_alphabet_def)

lemma color_loop_total:
  assumes v: "views m solution sol" and ls: "length sol = LETTERS" and lg: "length guess = LETTERS"
    and letters: "set guess \<subseteq> chr ` set init_alphabet"
  shows "length alpha = 26 \<Longrightarrow>
     \<exists>alpha' shown'. color_loop m solution guess k alpha shown = Inr (alpha', shown')"
proof (induction "LETTERS - k" arbitrary: k alpha shown)
  case 0
  then have "\<not> k < LETTERS" by simp
  then show ?case by (subst color_loop.simps) simp
next
  case (Suc n)
  then have k: "k < LETTERS" by simp
  from qualify_guess_views [OF v ls lg k] obtain q where
    q: "qualify_guess m solution guess k = Inr q" by blast
  with qualify_guess_not_Unknown [of m solution guess k] have qU: "q \<noteq> Unknown" by auto
  have c: "cstr_at guess k = Inr (guess ! k)" using k lg by (simp add: cstr_at_in)
  have "guess ! k \<in> chr ` set init_alphabet" using letters k lg by (auto simp: subset_iff)
  from update_alphabet_total [OF this Suc.prems qU] obtain a1 where
    a1: "update_alphabet alpha (guess ! k) q = Inr a1" by blast
  from update_alphabet_never_lower [OF a1] Suc.prems have "length a1 = 26"
    by (simp add: never_lower_def)
  moreover from Suc.hyps(2) have "n = LETTERS - Suc k" by simp
  ultimately obtain alpha' shown' where
    "color_loop m solution guess (Suc k) a1 (shown @ [(guess ! k, q)]) = Inr (alpha', shown')"
    using Suc.hyps(1) [of "Suc k" a1 "shown @ [(guess ! k, q)]"] by blast
  with k q c a1 show ?case by (subst color_loop.simps) simp
qed

lemma color_word_total:
  assumes "views m solution sol" and "length sol = LETTERS" and "length guess = LETTERS"
    and "set guess \<subseteq> chr ` set init_alphabet" and "length alpha = 26"
  shows "\<exists>alpha' shown'. color_word_and_update_alphabet m solution guess alpha = Inr (alpha', shown')"
  using color_loop_total [OF assms] by (simp add: color_word_and_update_alphabet_def)

section \<open>The game loop, one line at a time\<close>

lemma emit_simps [simp]:
  "loop_i (emit e g) = loop_i g"
  "alphabet (emit e g) = alphabet g"
  "cursor_y (emit e g) = cursor_y g"
  "shown_events (emit e g) = shown_events g @ [e]"
  by (simp_all add: emit_def)

lemma reveals_append: "reveals (xs @ ys) = reveals xs @ reveals ys"
  by (induction xs rule: reveals.induct) simp_all

lemma keep_counter: "(emit e g)\<lparr>loop_i := loop_i g\<rparr> = emit e g"
  by (simp add: emit_def)

lemma main_loop_done:
  "\<not> loop_i g < GUESSES \<Longrightarrow>
     main_loop m words solution g lines = Inr (ExitAfterLoop, emit (Reveal solution) g)"
  by (subst main_loop.simps) simp

lemma main_loop_eof:
  "loop_i g < GUESSES \<Longrightarrow>
     main_loop m words solution g [] = Inr (ExitEOF, emit (Prompt (loop_i g) (alphabet g)) g)"
  by (subst main_loop.simps) simp

lemma main_loop_empty:
  "loop_i g < GUESSES \<Longrightarrow>
     main_loop m words solution g ([] # rest) =
     main_loop m words solution (emit (Prompt (loop_i g) (alphabet g)) g) rest"
  by (subst main_loop.simps) (simp add: Let_def)

lemma main_loop_wrong_length:
  "loop_i g < GUESSES \<Longrightarrow> raw \<noteq> [] \<Longrightarrow>
   length (takeWhile (\<lambda>c. c \<noteq> NEWLINE) raw) \<noteq> LETTERS \<Longrightarrow>
     main_loop m words solution g (raw # rest) =
     main_loop m words solution
       (emit (Misinput ''Wrong length'') (emit (Prompt (loop_i g) (alphabet g)) g)) rest"
  by (subst main_loop.simps) (simp add: Let_def keep_counter)

lemma main_loop_not_valid:
  "loop_i g < GUESSES \<Longrightarrow> raw \<noteq> [] \<Longrightarrow>
   length (takeWhile (\<lambda>c. c \<noteq> NEWLINE) raw) = LETTERS \<Longrightarrow>
   valid m words (takeWhile (\<lambda>c. c \<noteq> NEWLINE) raw) = Inr False \<Longrightarrow>
     main_loop m words solution g (raw # rest) =
     main_loop m words solution
       (emit (Misinput ''Not in word list'') (emit (Prompt (loop_i g) (alphabet g)) g)) rest"
  by (subst main_loop.simps) (simp add: Let_def keep_counter)

lemma main_loop_guess:
  "loop_i g < GUESSES \<Longrightarrow> raw \<noteq> [] \<Longrightarrow>
   length (takeWhile (\<lambda>c. c \<noteq> NEWLINE) raw) = LETTERS \<Longrightarrow>
   valid m words (takeWhile (\<lambda>c. c \<noteq> NEWLINE) raw) = Inr True \<Longrightarrow>
   color_word_and_update_alphabet m solution (takeWhile (\<lambda>c. c \<noteq> NEWLINE) raw) (alphabet g) =
     Inr (alpha', shown) \<Longrightarrow>
     main_loop m words solution g (raw # rest) =
     (case check_correct m solution (takeWhile (\<lambda>c. c \<noteq> NEWLINE) raw) of
        Inl e \<Rightarrow> Inl e
      | Inr correct \<Rightarrow>
          if correct then
            Inr (ExitCorrect,
                 emit (Colored shown) ((emit (Prompt (loop_i g) (alphabet g)) g)\<lparr>alphabet := alpha'\<rparr>))
          else
            main_loop m words solution
              ((emit (Colored shown) ((emit (Prompt (loop_i g) (alphabet g)) g)\<lparr>alphabet := alpha'\<rparr>))
                 \<lparr>cursor_y := cursor_y g + 1, loop_i := loop_i g + 1\<rparr>) rest)"
  by (subst main_loop.simps) (simp add: Let_def emit_def split: sum.splits)

text \<open>One iteration that reads a line: a fault, the exit after a correct guess, or the loop again.\<close>

lemma main_loop_Cons:
  assumes "loop_i g < GUESSES"
  shows "(\<exists>e. main_loop m words solution g (raw # rest) = Inl e) \<or>
     (\<exists>g'. main_loop m words solution g (raw # rest) = Inr (ExitCorrect, g') \<and>
           reveals (shown_events g') = reveals (shown_events g) \<and>
           never_lower (alphabet g) (alphabet g')) \<or>
     (\<exists>g'. main_loop m words solution g (raw # rest) = main_loop m words solution g' rest \<and>
           reveals (shown_events g') = reveals (shown_events g) \<and>
           never_lower (alphabet g) (alphabet g'))"
proof -
  let ?line = "takeWhile (\<lambda>c. c \<noteq> NEWLINE) raw"
  show ?thesis
  proof (cases "raw = []")
    case True
    with main_loop_empty [OF assms, of m words solution rest] show ?thesis
      by (auto simp: reveals_append never_lower_refl)
  next
    case raw: False
    show ?thesis
    proof (cases "length ?line = LETTERS")
      case False
      with main_loop_wrong_length [OF assms raw, of m words solution rest] show ?thesis
        by (auto simp: reveals_append never_lower_refl)
    next
      case len: True
      show ?thesis
      proof (cases "valid m words ?line")
        case (Inl e)
        with assms raw len show ?thesis
          by (subst main_loop.simps) (simp add: Let_def)
      next
        case (Inr ok)
        show ?thesis
        proof (cases ok)
          case False
          with Inr main_loop_not_valid [OF assms raw len, of m words solution rest] show ?thesis
            by (auto simp: reveals_append never_lower_refl)
        next
          case True
          with Inr have v: "valid m words ?line = Inr True" by simp
          show ?thesis
          proof (cases "color_word_and_update_alphabet m solution ?line (alphabet g)")
            case (Inl e)
            with assms raw len v show ?thesis
              by (subst main_loop.simps) (simp add: Let_def)
          next
            case (Inr r)
            obtain alpha' shown where r: "r = (alpha', shown)" by (cases r)
            with Inr have c: "color_word_and_update_alphabet m solution ?line (alphabet g) =
                Inr (alpha', shown)" by simp
            note nl = color_word_never_lower [OF c]
            note eq = main_loop_guess [OF assms raw len v c, of rest]
            show ?thesis
            proof (cases "check_correct m solution ?line")
              case (Inl e)
              with eq show ?thesis by simp
            next
              case (Inr correct)
              show ?thesis
              proof (cases correct)
                case True
                with Inr eq nl show ?thesis by (simp add: reveals_append)
              next
                case False
                let ?g' = "(emit (Colored shown) ((emit (Prompt (loop_i g) (alphabet g)) g)\<lparr>alphabet := alpha'\<rparr>))
                 \<lparr>cursor_y := cursor_y g + 1, loop_i := loop_i g + 1\<rparr>"
                from False Inr eq have
                  "main_loop m words solution g (raw # rest) = main_loop m words solution ?g' rest"
                  by simp
                moreover have "reveals (shown_events ?g') = reveals (shown_events g)"
                  by (simp add: reveals_append)
                moreover have "never_lower (alphabet g) (alphabet ?g')"
                  using nl by simp
                ultimately show ?thesis by blast
              qed
            qed
          qed
        qed
      qed
    qed
  qed
qed

lemma main_loop_run:
  "main_loop m words solution g lines = Inr (e, g') \<Longrightarrow>
     reveals (shown_events g') =
       reveals (shown_events g) @ (if e = ExitAfterLoop then [solution] else []) \<and>
     never_lower (alphabet g) (alphabet g')"
proof (induction lines arbitrary: g)
  case Nil
  then show ?case
    by (cases "loop_i g < GUESSES")
       (auto simp: main_loop_done main_loop_eof reveals_append never_lower_refl)
next
  case (Cons raw rest)
  show ?case
  proof (cases "loop_i g < GUESSES")
    case False
    with Cons.prems show ?thesis
      by (auto simp: main_loop_done reveals_append never_lower_refl)
  next
    case True
    from main_loop_Cons [OF True, of m words solution raw rest] Cons.prems
    consider (won) "e = ExitCorrect" "reveals (shown_events g') = reveals (shown_events g)"
        "never_lower (alphabet g) (alphabet g')"
      | (again) g1 where "main_loop m words solution g1 rest = Inr (e, g')"
        "reveals (shown_events g1) = reveals (shown_events g)"
        "never_lower (alphabet g) (alphabet g1)"
      by auto
    then show ?thesis
    proof cases
      case won
      then show ?thesis by simp
    next
      case again
      from Cons.IH [OF again(1)] again(2,3) show ?thesis
        by (auto intro: never_lower_trans)
    qed
  qed
qed

text \<open>
  Claim C7. On an alphabet of 26 entries, every sequence of updates with letters of the
  alphabet and determined qualities runs through and leaves each entry with its letter
  and with a quality that is unchanged or strictly higher in the order
  Unknown < Wrong < WrongPlace < RightPlace; and over any run of the game loop, whatever
  the guesses are, the alphabet at the end is never lower than at the start.
\<close>

theorem alphabet_never_lower:
  assumes "length alpha = 26"
    and "\<forall>(c, q) \<in> set ups. c \<in> chr ` set init_alphabet \<and> q \<noteq> Unknown"
  shows "(\<exists>alpha'. update_all alpha ups = Inr alpha' \<and> never_lower alpha alpha') \<and>
         (\<forall>m words solution g lines e g'.
            main_loop m words solution g lines = Inr (e, g') \<longrightarrow>
            never_lower (alphabet g) (alphabet g'))"
  using update_all_total [OF assms] update_all_never_lower main_loop_run by blast

theorem alphabet_never_lower_witness:
  "length init_alphabet = 26 \<and>
   list_all (\<lambda>(c, q). c \<in> chr ` set init_alphabet \<and> q \<noteq> Unknown)
     [(CHR ''c'', WrongPlace), (CHR ''c'', Wrong), (CHR ''c'', RightPlace), (CHR ''c'', WrongPlace)] \<and>
   (\<exists>alpha'. update_all init_alphabet
        [(CHR ''c'', WrongPlace), (CHR ''c'', Wrong), (CHR ''c'', RightPlace), (CHR ''c'', WrongPlace)] = Inr alpha' \<and>
      never_lower init_alphabet alpha')"
proof -
  have l: "length init_alphabet = 26" by (simp add: init_alphabet_def)
  have c: "CHR ''c'' \<in> chr ` set init_alphabet" by code_simp
  have h: "\<forall>(c, q) \<in> set [(CHR ''c'', WrongPlace), (CHR ''c'', Wrong), (CHR ''c'', RightPlace), (CHR ''c'', WrongPlace)].
        c \<in> chr ` set init_alphabet \<and> q \<noteq> Unknown"
    using c by simp
  have h': "list_all (\<lambda>(c, q). c \<in> chr ` set init_alphabet \<and> q \<noteq> Unknown)
     [(CHR ''c'', WrongPlace), (CHR ''c'', Wrong), (CHR ''c'', RightPlace), (CHR ''c'', WrongPlace)]"
    using c by simp
  show ?thesis
    using l h' alphabet_never_lower [OF l h] by blast
qed

section \<open>Rejected lines\<close>

lemma newline_no_letter: "NEWLINE \<notin> chr ` set init_alphabet"
proof
  assume "NEWLINE \<in> chr ` set init_alphabet"
  from letter_index [OF this] show False by (simp add: char_to_int_def)
qed

lemma letters_line:
  assumes "set w \<subseteq> chr ` set init_alphabet"
  shows "takeWhile (\<lambda>c. c \<noteq> NEWLINE) w = w"
  using assms newline_no_letter by (auto simp: takeWhile_eq_all_conv)

text \<open>
  Claim C6, as amended. While the loop runs, every submitted line that is not empty and
  whose guess (the line up to its first newline) has a length other than 5 or is not in
  the valid-guess corpus is rejected with the message for its case (Wrong length before
  Not in word list), and the loop goes on with the same counter, the same alphabet and the
  same cursor line: no attempt is consumed and nothing but the display has changed.
\<close>

theorem rejected_guess_keeps_state:
  assumes corpus: "list_all2 (views m) words corpus"
    and playing: "loop_i g < GUESSES"
    and raw: "raw \<noteq> []"
    and bad: "length (takeWhile (\<lambda>c. c \<noteq> NEWLINE) raw) \<noteq> LETTERS \<or>
              takeWhile (\<lambda>c. c \<noteq> NEWLINE) raw \<notin> set corpus"
  shows "\<exists>g'. main_loop m words solution g (raw # rest) = main_loop m words solution g' rest \<and>
     loop_i g' = loop_i g \<and> alphabet g' = alphabet g \<and> cursor_y g' = cursor_y g \<and>
     shown_events g' = shown_events g @
       [Prompt (loop_i g) (alphabet g),
        Misinput (if length (takeWhile (\<lambda>c. c \<noteq> NEWLINE) raw) \<noteq> LETTERS
                  then ''Wrong length'' else ''Not in word list'')]"
proof (cases "length (takeWhile (\<lambda>c. c \<noteq> NEWLINE) raw) = LETTERS")
  case False
  from main_loop_wrong_length [OF playing raw False, of m words solution rest] False
  show ?thesis
    by (intro exI [of _ "emit (Misinput ''Wrong length'') (emit (Prompt (loop_i g) (alphabet g)) g)"])
       simp
next
  case True
  with bad have "takeWhile (\<lambda>c. c \<noteq> NEWLINE) raw \<notin> set corpus" by simp
  moreover from True have "length (takeWhile (\<lambda>c. c \<noteq> NEWLINE) raw) < 2 ^ 64" by simp
  ultimately have "valid m words (takeWhile (\<lambda>c. c \<noteq> NEWLINE) raw) = Inr False"
    using valid_corpus [OF corpus] by simp
  from main_loop_not_valid [OF playing raw True this, of solution rest] True
  show ?thesis
    by (intro exI [of _ "emit (Misinput ''Not in word list'') (emit (Prompt (loop_i g) (alphabet g)) g)"])
       simp
qed

theorem rejected_guess_keeps_state_witness:
  "list_all2 (views demo_mem) demo_words [''crane'', ''trace''] \<and>
   loop_i \<lparr>loop_i = 2, alphabet = init_alphabet, cursor_y = 5, shown_events = []\<rparr> < GUESSES \<and>
   ''cran'' \<noteq> [] \<and>
   length (takeWhile (\<lambda>c. c \<noteq> NEWLINE) ''cran'') \<noteq> LETTERS \<and>
   (\<exists>g'. main_loop demo_mem demo_words demo_solution
            \<lparr>loop_i = 2, alphabet = init_alphabet, cursor_y = 5, shown_events = []\<rparr> (''cran'' # []) =
          main_loop demo_mem demo_words demo_solution g' [] \<and>
     loop_i g' = 2 \<and> alphabet g' = init_alphabet \<and> cursor_y g' = 5 \<and>
     shown_events g' = [Prompt 2 init_alphabet, Misinput ''Wrong length''])"
proof -
  have h1: "list_all2 (views demo_mem) demo_words [''crane'', ''trace'']" by code_simp
  show ?thesis
    using h1 rejected_guess_keeps_state [OF h1, of "\<lparr>loop_i = 2, alphabet = init_alphabet, cursor_y = 5, shown_events = []\<rparr>"
        "''cran''" demo_solution "[]"]
    by simp
qed

text \<open>
  The claim as it stands fails at the empty line: its length is not 5, yet it is passed
  over without a message. The run below prompts twice and shows no \<open>Misinput\<close>.
\<close>

theorem empty_line_not_classified:
  "length ('''' :: string) \<noteq> LETTERS \<and>
   main_game demo_mem demo_words demo_solution [''''] =
     Inr (ExitEOF, \<lparr>loop_i = 0, alphabet = init_alphabet, cursor_y = 3,
                    shown_events = [Prompt 0 init_alphabet, Prompt 0 init_alphabet]\<rparr>)"
  by (simp add: main_game_def main_loop_empty main_loop_eof emit_def)

section \<open>Six wrong guesses\<close>

lemma wrong_guess_step:
  assumes corpus: "list_all2 (views m) words corpus"
    and sol: "views m solution sol" "length sol = LETTERS"
    and playing: "loop_i g < GUESSES"
    and alpha: "length (alphabet g) = 26"
    and w: "w \<in> set corpus" "length w = LETTERS" "w \<noteq> sol" "set w \<subseteq> chr ` set init_alphabet"
  shows "\<exists>g'. main_loop m words solution g (w # rest) = main_loop m words solution g' rest \<and>
     loop_i g' = loop_i g + 1 \<and> length (alphabet g') = 26 \<and>
     (\<exists>shown. shown_events g' = shown_events g @ [Prompt (loop_i g) (alphabet g), Colored shown])"
proof -
  have line: "takeWhile (\<lambda>c. c \<noteq> NEWLINE) w = w" by (rule letters_line [OF w(4)])
  have raw: "w \<noteq> []" using w(2) by auto
  have lw: "length w < 2 ^ 64" using w(2) by simp
  have v: "valid m words w = Inr True"
    using valid_corpus [OF corpus lw] w(1) by simp
  from color_word_total [OF sol w(2) w(4) alpha] obtain alpha' shown where
    c: "color_word_and_update_alphabet m solution w (alphabet g) = Inr (alpha', shown)" by blast
  from color_word_never_lower [OF c] alpha have la: "length alpha' = 26"
    by (simp add: never_lower_def)
  have cc: "check_correct m solution w = Inr False"
    using sv_cstr_eq_views [OF sol(1) lw] w(3) by (simp add: check_correct_def)
  let ?g' = "(emit (Colored shown) ((emit (Prompt (loop_i g) (alphabet g)) g)\<lparr>alphabet := alpha'\<rparr>))
                 \<lparr>cursor_y := cursor_y g + 1, loop_i := loop_i g + 1\<rparr>"
  have "main_loop m words solution g (w # rest) = main_loop m words solution ?g' rest"
    using main_loop_guess [of g w m words solution alpha' shown rest] playing raw w(2) v c cc
    by (simp add: line)
  moreover have "loop_i ?g' = loop_i g + 1" "length (alphabet ?g') = 26"
    "shown_events ?g' = shown_events g @ [Prompt (loop_i g) (alphabet g), Colored shown]"
    using la by simp_all
  ultimately show ?thesis by blast
qed

lemma wrong_guesses_run:
  assumes corpus: "list_all2 (views m) words corpus"
    and sol: "views m solution sol" "length sol = LETTERS"
  shows "length (alphabet g) = 26 \<Longrightarrow> loop_i g + int (length gs) = GUESSES \<Longrightarrow>
     \<forall>w\<in>set gs. w \<in> set corpus \<and> length w = LETTERS \<and> w \<noteq> sol \<and> set w \<subseteq> chr ` set init_alphabet \<Longrightarrow>
     \<exists>g' es. main_loop m words solution g (gs @ rest) = Inr (ExitAfterLoop, g') \<and>
        shown_events g' = shown_events g @ es @ [Reveal solution] \<and>
        prompts es = [loop_i g..5] \<and> reveals es = []"
proof (induction gs arbitrary: g)
  case Nil
  then have "\<not> loop_i g < GUESSES" "[loop_i g..5] = []" by simp_all
  then show ?case
    by (intro exI [of _ "emit (Reveal solution) g"] exI [of _ "[]"]) (simp add: main_loop_done)
next
  case (Cons w gs)
  then have playing: "loop_i g < GUESSES" by simp
  from Cons.prems(3) have w: "w \<in> set corpus" "length w = LETTERS" "w \<noteq> sol"
    "set w \<subseteq> chr ` set init_alphabet" by simp_all
  obtain g1 shown where
    step: "main_loop m words solution g (w # gs @ rest) = main_loop m words solution g1 (gs @ rest)"
    and g1: "loop_i g1 = loop_i g + 1" "length (alphabet g1) = 26"
      "shown_events g1 = shown_events g @ [Prompt (loop_i g) (alphabet g), Colored shown]"
    using wrong_guess_step [OF corpus sol playing Cons.prems(1) w, of "gs @ rest"] by blast
  have "loop_i g1 + int (length gs) = GUESSES" using g1(1) Cons.prems(2) by simp
  from Cons.IH [OF g1(2) this] Cons.prems(3) obtain g' es where
    run: "main_loop m words solution g1 (gs @ rest) = Inr (ExitAfterLoop, g')"
      "shown_events g' = shown_events g1 @ es @ [Reveal solution]"
      "prompts es = [loop_i g1..5]" "reveals es = []"
    by auto
  let ?es = "[Prompt (loop_i g) (alphabet g), Colored shown] @ es"
  have "[loop_i g..5] = loop_i g # [loop_i g + 1..5]"
    using playing by (simp add: upto_rec1)
  with run g1 step have
    "main_loop m words solution g ((w # gs) @ rest) = Inr (ExitAfterLoop, g')"
    "shown_events g' = shown_events g @ ?es @ [Reveal solution]"
    "prompts ?es = [loop_i g..5]" "reveals ?es = []"
    by simp_all
  then show ?case by blast
qed

lemma prompts_append: "prompts (xs @ ys) = prompts xs @ prompts ys"
  by (induction xs rule: prompts.induct) simp_all

lemma wrong_guesses_prefix:
  assumes corpus: "list_all2 (views m) words corpus"
    and sol: "views m solution sol" "length sol = LETTERS"
  shows "length (alphabet g) = 26 \<Longrightarrow> loop_i g + int (length ws) \<le> GUESSES \<Longrightarrow>
     \<forall>w\<in>set ws. w \<in> set corpus \<and> length w = LETTERS \<and> w \<noteq> sol \<and> set w \<subseteq> chr ` set init_alphabet \<Longrightarrow>
     \<exists>g1 es. main_loop m words solution g (ws @ rest) = main_loop m words solution g1 rest \<and>
        loop_i g1 = loop_i g + int (length ws) \<and> length (alphabet g1) = 26 \<and>
        shown_events g1 = shown_events g @ es \<and>
        prompts es = [loop_i g..loop_i g + int (length ws) - 1] \<and> reveals es = []"
proof (induction ws arbitrary: g)
  case Nil
  show ?case
    using Nil.prems(1) by (intro exI [of _ g] exI [of _ "[]"]) simp
next
  case (Cons w ws)
  then have playing: "loop_i g < GUESSES" by simp
  from Cons.prems(3) have w: "w \<in> set corpus" "length w = LETTERS" "w \<noteq> sol"
    "set w \<subseteq> chr ` set init_alphabet" by simp_all
  obtain g1 shown where
    step: "main_loop m words solution g (w # ws @ rest) = main_loop m words solution g1 (ws @ rest)"
    and g1: "loop_i g1 = loop_i g + 1" "length (alphabet g1) = 26"
      "shown_events g1 = shown_events g @ [Prompt (loop_i g) (alphabet g), Colored shown]"
    using wrong_guess_step [OF corpus sol playing Cons.prems(1) w, of "ws @ rest"] by blast
  have "loop_i g1 + int (length ws) \<le> GUESSES" using g1(1) Cons.prems(2) by simp
  from Cons.IH [OF g1(2) this] Cons.prems(3) obtain g2 es where
    run: "main_loop m words solution g1 (ws @ rest) = main_loop m words solution g2 rest"
      "loop_i g2 = loop_i g1 + int (length ws)" "length (alphabet g2) = 26"
      "shown_events g2 = shown_events g1 @ es"
      "prompts es = [loop_i g1..loop_i g1 + int (length ws) - 1]" "reveals es = []"
    by auto
  let ?es = "[Prompt (loop_i g) (alphabet g), Colored shown] @ es"
  have up: "[loop_i g..loop_i g + int (length (w # ws)) - 1] =
        loop_i g # [loop_i g + 1..loop_i g + 1 + int (length ws) - 1]"
    by (simp add: upto_rec1 [of "loop_i g"] add.commute add.left_commute)
  have "main_loop m words solution g ((w # ws) @ rest) = main_loop m words solution g2 rest"
    using step run(1) by simp
  moreover have "loop_i g2 = loop_i g + int (length (w # ws))"
    using run(2) g1(1) by simp
  moreover have "shown_events g2 = shown_events g @ ?es"
    using run(4) g1(3) by simp
  moreover have "prompts ?es = [loop_i g..loop_i g + int (length (w # ws)) - 1]"
    using run(5) g1(1) unfolding up by simp
  moreover have "reveals ?es = []" using run(6) by simp
  ultimately show ?case using run(3) by blast
qed

lemma correct_guess_step:
  assumes corpus: "list_all2 (views m) words corpus"
    and sol: "views m solution sol" "length sol = LETTERS"
    and playing: "loop_i g < GUESSES"
    and alpha: "length (alphabet g) = 26"
    and w: "sol \<in> set corpus" "set sol \<subseteq> chr ` set init_alphabet"
  shows "\<exists>g' shown. main_loop m words solution g (sol # rest) = Inr (ExitCorrect, g') \<and>
     shown_events g' = shown_events g @ [Prompt (loop_i g) (alphabet g), Colored shown]"
proof -
  have line: "takeWhile (\<lambda>c. c \<noteq> NEWLINE) sol = sol" by (rule letters_line [OF w(2)])
  have raw: "sol \<noteq> []" using sol(2) by auto
  have lw: "length sol < 2 ^ 64" using sol(2) by simp
  have v: "valid m words sol = Inr True"
    using valid_corpus [OF corpus lw] w(1) by simp
  from color_word_total [OF sol sol(2) w(2) alpha] obtain alpha' shown where
    c: "color_word_and_update_alphabet m solution sol (alphabet g) = Inr (alpha', shown)" by blast
  have cc: "check_correct m solution sol = Inr True"
    using sv_cstr_eq_views [OF sol(1) lw] by (simp add: check_correct_def)
  let ?g' = "emit (Colored shown) ((emit (Prompt (loop_i g) (alphabet g)) g)\<lparr>alphabet := alpha'\<rparr>)"
  have "main_loop m words solution g (sol # rest) = Inr (ExitCorrect, ?g')"
    using main_loop_guess [of g sol m words solution alpha' shown rest] playing raw sol(2) v c cc
    by (simp add: line)
  moreover have "shown_events ?g' = shown_events g @ [Prompt (loop_i g) (alphabet g), Colored shown]"
    by simp
  ultimately show ?thesis by blast
qed

lemma upto_snoc: "(0::int) \<le> n \<Longrightarrow> [0..n - 1] @ [n] = [0..n]"
  using upto_rec2 [of 0 n] by simp

text \<open>
  Claim C5. From the start of the game (counter 0), six valid guesses in a row that all
  differ from the solution take the loop through the counters 0, 1, 2, 3, 4, 5 and then
  out of it, where the solution is printed: it is the last event of the run and no event
  before it is a reveal. In every run of the game, the solution is printed once if the
  run ends after the loop, and never if it ends with a correct guess or at end of input.
  Both of these ends are reached without a reveal: when the input runs out after fewer
  than six such guesses, the game returns at end of input; and when fewer than six such
  guesses are followed by the solution itself, the game returns after the correct guess,
  whatever the counter is and whatever lines follow.
\<close>

theorem six_wrong_guesses:
  assumes "list_all2 (views m) words corpus"
    and "views m solution sol" and "length sol = LETTERS"
    and "length gs = 6"
    and "\<forall>w\<in>set gs. w \<in> set corpus \<and> length w = LETTERS \<and> w \<noteq> sol \<and>
                    set w \<subseteq> chr ` set init_alphabet"
  shows "(\<exists>g' es. main_game m words solution (gs @ rest) = Inr (ExitAfterLoop, g') \<and>
            shown_events g' = es @ [Reveal solution] \<and>
            prompts es = [0, 1, 2, 3, 4, 5] \<and> reveals es = []) \<and>
         (\<forall>lines e g'. main_game m words solution lines = Inr (e, g') \<longrightarrow>
            reveals (shown_events g') = (if e = ExitAfterLoop then [solution] else [])) \<and>
         (\<forall>ws. length ws < 6 \<and>
               (\<forall>w\<in>set ws. w \<in> set corpus \<and> length w = LETTERS \<and> w \<noteq> sol \<and>
                    set w \<subseteq> chr ` set init_alphabet) \<longrightarrow>
            (\<exists>g'. main_game m words solution ws = Inr (ExitEOF, g') \<and>
                  prompts (shown_events g') = [0..int (length ws)] \<and>
                  reveals (shown_events g') = [])) \<and>
         (\<forall>ws after. length ws < 6 \<and>
               (\<forall>w\<in>set ws. w \<in> set corpus \<and> length w = LETTERS \<and> w \<noteq> sol \<and>
                    set w \<subseteq> chr ` set init_alphabet) \<and>
               sol \<in> set corpus \<and> set sol \<subseteq> chr ` set init_alphabet \<longrightarrow>
            (\<exists>g'. main_game m words solution (ws @ sol # after) = Inr (ExitCorrect, g') \<and>
                  prompts (shown_events g') = [0..int (length ws)] \<and>
                  reveals (shown_events g') = []))"
proof (intro conjI allI impI)
  let ?g0 = "\<lparr>loop_i = 0, alphabet = init_alphabet, cursor_y = 3, shown_events = []\<rparr>"
  have a0: "length (alphabet ?g0) = 26" by (simp add: init_alphabet_def)
  {
    have "loop_i ?g0 + int (length gs) = GUESSES" using assms(4) by simp
    with a0 obtain g' es where
      "main_loop m words solution ?g0 (gs @ rest) = Inr (ExitAfterLoop, g')"
      "shown_events g' = shown_events ?g0 @ es @ [Reveal solution]"
      "prompts es = [loop_i ?g0..5]" "reveals es = []"
      using wrong_guesses_run [OF assms(1-3), of ?g0 gs rest] assms(5) by blast
    moreover have "[0..5] = [0, 1, 2, 3, 4, 5::int]" by (simp add: upto_rec1)
    ultimately show "\<exists>g' es. main_game m words solution (gs @ rest) = Inr (ExitAfterLoop, g') \<and>
            shown_events g' = es @ [Reveal solution] \<and>
            prompts es = [0, 1, 2, 3, 4, 5] \<and> reveals es = []"
      by (simp add: main_game_def)
  }
  {
    fix lines e g'
    assume "main_game m words solution lines = Inr (e, g')"
    then show "reveals (shown_events g') = (if e = ExitAfterLoop then [solution] else [])"
      using main_loop_run [of m words solution ?g0 lines e g'] by (simp add: main_game_def)
  }
  {
    fix ws
    assume h: "length ws < 6 \<and>
               (\<forall>w\<in>set ws. w \<in> set corpus \<and> length w = LETTERS \<and> w \<noteq> sol \<and>
                    set w \<subseteq> chr ` set init_alphabet)"
    then have "loop_i ?g0 + int (length ws) \<le> GUESSES" by simp
    from wrong_guesses_prefix [OF assms(1-3) a0 this, of "[]"] h obtain g1 es where
      g1: "main_loop m words solution ?g0 ws = main_loop m words solution g1 []"
        "loop_i g1 = int (length ws)" "shown_events g1 = es"
        "prompts es = [0..int (length ws) - 1]" "reveals es = []"
      by auto
    from g1(2) h have playing: "loop_i g1 < GUESSES" by simp
    let ?g' = "emit (Prompt (loop_i g1) (alphabet g1)) g1"
    have "main_game m words solution ws = Inr (ExitEOF, ?g')"
      using g1(1) main_loop_eof [OF playing] by (simp add: main_game_def)
    moreover have "prompts (shown_events ?g') = [0..int (length ws)]"
      using g1(2-4) upto_snoc [of "int (length ws)"] by (simp add: prompts_append)
    moreover have "reveals (shown_events ?g') = []"
      using g1(3,5) by (simp add: reveals_append)
    ultimately show "\<exists>g'. main_game m words solution ws = Inr (ExitEOF, g') \<and>
                  prompts (shown_events g') = [0..int (length ws)] \<and>
                  reveals (shown_events g') = []"
      by blast
  }
  {
    fix ws after
    assume h: "length ws < 6 \<and>
               (\<forall>w\<in>set ws. w \<in> set corpus \<and> length w = LETTERS \<and> w \<noteq> sol \<and>
                    set w \<subseteq> chr ` set init_alphabet) \<and>
               sol \<in> set corpus \<and> set sol \<subseteq> chr ` set init_alphabet"
    then have "loop_i ?g0 + int (length ws) \<le> GUESSES" by simp
    from wrong_guesses_prefix [OF assms(1-3) a0 this, of "sol # after"] h obtain g1 es where
      g1: "main_loop m words solution ?g0 (ws @ sol # after) =
           main_loop m words solution g1 (sol # after)"
        "loop_i g1 = int (length ws)" "length (alphabet g1) = 26" "shown_events g1 = es"
        "prompts es = [0..int (length ws) - 1]" "reveals es = []"
      by auto
    from g1(2) h have playing: "loop_i g1 < GUESSES" by simp
    from h have s: "sol \<in> set corpus" "set sol \<subseteq> chr ` set init_alphabet" by simp_all
    from correct_guess_step [OF assms(1-3) playing g1(3) s, of after] obtain g' shown where
      g': "main_loop m words solution g1 (sol # after) = Inr (ExitCorrect, g')"
        "shown_events g' = shown_events g1 @ [Prompt (loop_i g1) (alphabet g1), Colored shown]"
      by blast
    have "main_game m words solution (ws @ sol # after) = Inr (ExitCorrect, g')"
      using g1(1) g'(1) by (simp add: main_game_def)
    moreover have "prompts (shown_events g') = [0..int (length ws)]"
      using g'(2) g1(2,4,5) upto_snoc [of "int (length ws)"] by (simp add: prompts_append)
    moreover have "reveals (shown_events g') = []"
      using g'(2) g1(4,6) by (simp add: reveals_append)
    ultimately show "\<exists>g'. main_game m words solution (ws @ sol # after) = Inr (ExitCorrect, g') \<and>
                  prompts (shown_events g') = [0..int (length ws)] \<and>
                  reveals (shown_events g') = []"
      by blast
  }
qed

theorem six_wrong_guesses_witness:
  "list_all2 (views demo_mem) demo_words [''crane'', ''trace''] \<and>
   views demo_mem demo_solution ''crane'' \<and> length ''crane'' = LETTERS \<and>
   length [''trace'', ''trace'', ''trace'', ''trace'', ''trace'', ''trace''] = 6 \<and>
   list_all (\<lambda>w. w \<in> set [''crane'', ''trace''] \<and> length w = LETTERS \<and> w \<noteq> ''crane'' \<and>
       set w \<subseteq> chr ` set init_alphabet)
     [''trace'', ''trace'', ''trace'', ''trace'', ''trace'', ''trace''] \<and>
   ''crane'' \<in> set [''crane'', ''trace''] \<and> set ''crane'' \<subseteq> chr ` set init_alphabet \<and>
   (\<exists>g' es. main_game demo_mem demo_words demo_solution
                ([''trace'', ''trace'', ''trace'', ''trace'', ''trace'', ''trace''] @ [''crane'']) =
              Inr (ExitAfterLoop, g') \<and>
            shown_events g' = es @ [Reveal demo_solution] \<and>
            prompts es = [0, 1, 2, 3, 4, 5] \<and> reveals es = []) \<and>
   (\<exists>g'. main_game demo_mem demo_words demo_solution [''trace''] = Inr (ExitEOF, g') \<and>
         prompts (shown_events g') = [0, 1] \<and> reveals (shown_events g') = []) \<and>
   (\<exists>g'. main_game demo_mem demo_words demo_solution ([''trace''] @ ''crane'' # [''trace'']) =
           Inr (ExitCorrect, g') \<and>
         prompts (shown_events g') = [0, 1] \<and> reveals (shown_events g') = [])"
proof -
  have h1: "list_all2 (views demo_mem) demo_words [''crane'', ''trace'']" by code_simp
  have h2: "views demo_mem demo_solution ''crane''" by code_simp
  have h3: "length ''crane'' = LETTERS" by simp
  have h4: "length [''trace'', ''trace'', ''trace'', ''trace'', ''trace'', ''trace''] = 6" by simp
  have t: "set ''trace'' \<subseteq> chr ` set init_alphabet" by code_simp
  have c: "set ''crane'' \<subseteq> chr ` set init_alphabet" by code_simp
  have h5: "\<forall>w\<in>set [''trace'', ''trace'', ''trace'', ''trace'', ''trace'', ''trace''].
       w \<in> set [''crane'', ''trace''] \<and> length w = LETTERS \<and> w \<noteq> ''crane'' \<and>
       set w \<subseteq> chr ` set init_alphabet"
    using t by simp
  have h5': "list_all (\<lambda>w. w \<in> set [''crane'', ''trace''] \<and> length w = LETTERS \<and> w \<noteq> ''crane'' \<and>
       set w \<subseteq> chr ` set init_alphabet)
     [''trace'', ''trace'', ''trace'', ''trace'', ''trace'', ''trace'']"
    using t by simp
  have one: "length [''trace''] < 6 \<and>
       (\<forall>w\<in>set [''trace'']. w \<in> set [''crane'', ''trace''] \<and> length w = LETTERS \<and>
          w \<noteq> ''crane'' \<and> set w \<subseteq> chr ` set init_alphabet)"
    using t by simp
  have up: "[0..int (length [''trace''])] = [0, 1]" by (simp add: upto_rec1)
  note all = six_wrong_guesses [OF h1 h2 h3 h4 h5, of "[''crane'']"]
  from all have lost: "\<exists>g' es. main_game demo_mem demo_words demo_solution
                ([''trace'', ''trace'', ''trace'', ''trace'', ''trace'', ''trace''] @ [''crane'']) =
              Inr (ExitAfterLoop, g') \<and>
            shown_events g' = es @ [Reveal demo_solution] \<and>
            prompts es = [0, 1, 2, 3, 4, 5] \<and> reveals es = []"
    by (elim conjE)
  from all have "\<forall>ws. length ws < 6 \<and>
               (\<forall>w\<in>set ws. w \<in> set [''crane'', ''trace''] \<and> length w = LETTERS \<and> w \<noteq> ''crane'' \<and>
                    set w \<subseteq> chr ` set init_alphabet) \<longrightarrow>
            (\<exists>g'. main_game demo_mem demo_words demo_solution ws = Inr (ExitEOF, g') \<and>
                  prompts (shown_events g') = [0..int (length ws)] \<and>
                  reveals (shown_events g') = [])"
    by (elim conjE)
  from this [rule_format, OF one]
  have eof: "\<exists>g'. main_game demo_mem demo_words demo_solution [''trace''] = Inr (ExitEOF, g') \<and>
         prompts (shown_events g') = [0, 1] \<and> reveals (shown_events g') = []"
    unfolding up .
  from all have "\<forall>ws after. length ws < 6 \<and>
               (\<forall>w\<in>set ws. w \<in> set [''crane'', ''trace''] \<and> length w = LETTERS \<and> w \<noteq> ''crane'' \<and>
                    set w \<subseteq> chr ` set init_alphabet) \<and>
               ''crane'' \<in> set [''crane'', ''trace''] \<and> set ''crane'' \<subseteq> chr ` set init_alphabet \<longrightarrow>
            (\<exists>g'. main_game demo_mem demo_words demo_solution (ws @ ''crane'' # after) =
                    Inr (ExitCorrect, g') \<and>
                  prompts (shown_events g') = [0..int (length ws)] \<and>
                  reveals (shown_events g') = [])"
    by (elim conjE)
  from this [rule_format, of "[''trace'']" "[''trace'']"] one c
  have won: "\<exists>g'. main_game demo_mem demo_words demo_solution ([''trace''] @ ''crane'' # [''trace'']) =
           Inr (ExitCorrect, g') \<and>
         prompts (shown_events g') = [0, 1] \<and> reveals (shown_events g') = []"
    unfolding up by simp
  have cm: "''crane'' \<in> set [''crane'', ''trace'']" by simp
  from h1 h2 h3 h4 h5' cm c lost eof won show ?thesis by (intro conjI)
qed

end
